theory Spec2Isabelle
  imports Complex_Main "HOL-Library.Sublist" "HOL-Library.Multiset"
begin

section \<open>Strings\<close>

text \<open>
  A text is the list of its UTF-16 code units; the model covers the texts whose code units
  lie below 256 (U+0000 to U+00FF, the Latin-1 range), one \<open>char\<close> each. On these
  \<open>toLowerCase\<close> works unit by unit and keeps lengths and offsets: it adds 32 to
  \<open>A..Z\<close> (65 to 90) and to the capital letters U+00C0 to U+00DE other than the
  multiplication sign U+00D7, and leaves every other unit alone. Code units from 256 on
  (where folding can change the length, as for U+0130) are outside the model.
\<close>

definition lower_char :: "char \<Rightarrow> char" where
  "lower_char c =
     (let n = (of_char c :: nat)
      in if (65 \<le> n \<and> n \<le> 90) \<or> (192 \<le> n \<and> n \<le> 222 \<and> n \<noteq> 215)
         then char_of (n + 32) else c)"

definition toLowerCase :: "string \<Rightarrow> string" where
  "toLowerCase s = map lower_char s"

text \<open>
  The class \<open>\s\<close> of the regular expression, which is also what \<open>trim\<close> removes:
  below 256 these are tab, line feed, vertical tab, form feed, carriage return, space and
  the no-break space U+00A0.
\<close>

definition is_space :: "char \<Rightarrow> bool" where
  "is_space c =
     (c \<in> set [CHR 0x09, CHR 0x0A, CHR 0x0B, CHR 0x0C, CHR 0x0D, CHR 0x20, CHR 0xA0])"

text \<open>
  \<open>TOKENIZER_RE = /[\s\-_./\\:,;()[\]{}<>'"]+/\<close>: the characters of the class.
\<close>

definition is_sep :: "char \<Rightarrow> bool" where
  "is_sep c =
     (is_space c \<or>
      c \<in> set [CHR ''-'', CHR ''_'', CHR ''.'', CHR ''/'', CHR 0x5C, CHR '':'', CHR '','',
                CHR '';'', CHR ''('', CHR '')'', CHR ''['', CHR '']'', CHR ''{'', CHR ''}'',
                CHR ''<'', CHR ''>'', CHR 0x27, CHR 0x22])"

text \<open>
  \<open>s.split(TOKENIZER_RE)\<close>: the pieces between maximal runs of separators. A text that
  starts or ends with a separator yields an empty first or last piece, and the empty text
  yields one empty piece.
\<close>

function split_re :: "string \<Rightarrow> string list" where
  "split_re s =
     (let w = takeWhile (\<lambda>c. \<not> is_sep c) s;
          r = dropWhile (\<lambda>c. \<not> is_sep c) s
      in if r = [] then [w] else w # split_re (dropWhile is_sep r))"
  by pat_completeness auto
termination
proof (relation "measure length")
  show "wf (measure length)" by simp
next
  fix s :: string and w r
  assume r: "r = dropWhile (\<lambda>c. \<not> is_sep c) s" and ne: "r \<noteq> []"
  from ne obtain c cs where rc: "r = c # cs" by (cases r) auto
  from ne have "\<not> \<not> is_sep (hd r)" unfolding r by (rule hd_dropWhile)
  then have "is_sep c" by (simp add: rc)
  then have "length (dropWhile is_sep r) \<le> length cs"
    by (simp add: rc length_dropWhile_le)
  moreover have "length r \<le> length s"
    by (simp add: r length_dropWhile_le)
  ultimately show "(dropWhile is_sep r, s) \<in> measure length"
    by (simp add: rc)
qed

declare split_re.simps [simp del]

text \<open>\<open>tokenize\<close>: lowercase, split, keep the tokens longer than one character.\<close>

definition tokenize :: "string \<Rightarrow> string list" where
  "tokenize txt = filter (\<lambda>t. length t > 1) (split_re (toLowerCase txt))"

text \<open>
  \<open>s.indexOf(w, from)\<close>: the least offset at or after \<open>from\<close> where \<open>w\<close> starts,
  \<open>None\<close> for \<open>-1\<close>. An empty \<open>w\<close> is found at \<open>min from (length s)\<close>.
\<close>

fun index_from :: "string \<Rightarrow> string \<Rightarrow> nat \<Rightarrow> nat option" where
  "index_from w [] k = (if w = [] then Some k else None)"
| "index_from w (c # cs) k = (if prefix w (c # cs) then Some k else index_from w cs (Suc k))"

definition indexOf :: "string \<Rightarrow> string \<Rightarrow> nat \<Rightarrow> nat option" where
  "indexOf s w from = index_from w (drop from s) (min from (length s))"

definition str_includes :: "string \<Rightarrow> string \<Rightarrow> bool" where
  "str_includes s w = (indexOf s w 0 \<noteq> None)"

text \<open>\<open>s.trim()\<close> and \<open>s.slice(start, end)\<close> for offsets within the usual range.\<close>

definition trim :: "string \<Rightarrow> string" where
  "trim s = rev (dropWhile is_space (rev (dropWhile is_space s)))"

definition slice :: "string \<Rightarrow> nat \<Rightarrow> nat \<Rightarrow> string" where
  "slice s start stop = take (stop - start) (drop start s)"

section \<open>Edit distance\<close>

text \<open>
  \<open>levenshteinDistance\<close>: one row \<open>dp\<close> of the table, updated in place. The inner loop
  runs \<open>j\<close> from 1 to \<open>n\<close> and carries \<open>prev\<close>, the entry of the previous row at
  \<open>j - 1\<close>; the outer loop runs \<open>i\<close> from 1 to \<open>m\<close>.
\<close>

function lev_inner :: "char \<Rightarrow> string \<Rightarrow> nat \<Rightarrow> nat list \<Rightarrow> nat \<Rightarrow> nat \<Rightarrow> nat list" where
  "lev_inner ai b n dp prev j =
     (if j \<le> n then
        let temp = dp ! j;
            dp' = dp[j := (if ai = b ! (j - 1) then prev
                           else 1 + min prev (min (dp ! j) (dp ! (j - 1))))]
        in lev_inner ai b n dp' temp (j + 1)
      else dp)"
  by pat_completeness auto
termination
  by (relation "measure (\<lambda>(ai, b, n, dp, prev, j). n + 1 - j)") auto

declare lev_inner.simps [simp del]

function lev_outer :: "string \<Rightarrow> string \<Rightarrow> nat \<Rightarrow> nat \<Rightarrow> nat list \<Rightarrow> nat \<Rightarrow> nat list" where
  "lev_outer a b m n dp i =
     (if i \<le> m then
        let prev = dp ! 0;
            dp0 = dp[0 := i]
        in lev_outer a b m n (lev_inner (a ! (i - 1)) b n dp0 prev 1) (i + 1)
      else dp)"
  by pat_completeness auto
termination
  by (relation "measure (\<lambda>(a, b, m, n, dp, i). m + 1 - i)") auto

declare lev_outer.simps [simp del]

definition levenshteinDistance :: "string \<Rightarrow> string \<Rightarrow> nat" where
  "levenshteinDistance a b =
     (let m = length a; n = length b; dp = [0..<n + 1]
      in lev_outer a b m n dp 1 ! n)"

text \<open>
  The reference notion. \<open>one_edit a b\<close>: \<open>b\<close> arises from \<open>a\<close> by inserting, deleting
  or substituting one character at any position. \<open>transforms n a b\<close>: \<open>n\<close> such edits
  in sequence turn \<open>a\<close> into \<open>b\<close>.
\<close>

inductive one_edit :: "string \<Rightarrow> string \<Rightarrow> bool" where
  one_insert: "one_edit ss (c # ss)"
| one_delete: "one_edit (c # ss) ss"
| one_subst: "one_edit (c # ss) (d # ss)"
| one_later: "one_edit a b \<Longrightarrow> one_edit (p # a) (p # b)"

inductive transforms :: "nat \<Rightarrow> string \<Rightarrow> string \<Rightarrow> bool" where
  transforms_0: "transforms 0 a a"
| transforms_Suc: "one_edit a b \<Longrightarrow> transforms n b c \<Longrightarrow> transforms (Suc n) a c"

text \<open>
  Edit scripts that walk both strings from left to right (keep, substitute, delete, insert),
  and the textbook recurrence for their least cost. Both are proof devices that link the
  one-row table to \<open>transforms\<close>.
\<close>

inductive edits :: "string \<Rightarrow> string \<Rightarrow> nat \<Rightarrow> bool" where
  edits_nil: "edits [] [] 0"
| edits_keep: "edits xs ys n \<Longrightarrow> edits (x # xs) (x # ys) n"
| edits_subst: "edits xs ys n \<Longrightarrow> edits (x # xs) (y # ys) (Suc n)"
| edits_delete: "edits xs ys n \<Longrightarrow> edits (x # xs) ys (Suc n)"
| edits_insert: "edits xs ys n \<Longrightarrow> edits xs (y # ys) (Suc n)"

code_pred edits .

fun lev :: "string \<Rightarrow> string \<Rightarrow> nat" where
  "lev [] ys = length ys"
| "lev (x # xs) [] = Suc (length xs)"
| "lev (x # xs) (y # ys) =
     min (lev xs ys + (if x = y then 0 else 1)) (min (lev xs (y # ys) + 1) (lev (x # xs) ys + 1))"

section \<open>Documents, hits and results\<close>

datatype agent_name = Claude | Codex | Gemini | Antigravity

datatype document_type = Conversation | Memory | Plan | Knowledge

text \<open>\<open>SearchableDocument\<close>; an optional field is an \<open>option\<close>, a timestamp is epoch milliseconds.\<close>

record searchable_document =
  doc_id :: string
  doc_agent :: agent_name
  doc_sessionId :: "string option"
  doc_timestamp :: "int option"
  doc_project :: "string option"
  doc_filePath :: "string option"
  doc_display :: "string option"
  doc_text :: string
  doc_type :: document_type
  doc_messageCount :: "int option"

text \<open>
  One entry of what the full-text index returns for a query: the id, the raw relevance score
  and the stored fields \<open>agent, sessionId, timestamp, project, type, filePath, display\<close>.
  The index itself is an external library; the search below takes its answer as an argument.
\<close>

record hit =
  hit_id :: string
  hit_score :: real
  hit_agent :: "agent_name option"
  hit_sessionId :: "string option"
  hit_timestamp :: "int option"
  hit_project :: "string option"
  hit_type :: "document_type option"
  hit_filePath :: "string option"
  hit_display :: "string option"

text \<open>
  \<open>SearchOptions\<close> as the post-filters read them: \<open>dateFrom\<close> and \<open>dateTo\<close> are the
  \<open>getTime()\<close> of valid dates, \<open>type\<close> is the list of allowed types (a single type is the
  one-element list), \<open>limit\<close> and \<open>maxSnippets\<close> are counts.
\<close>

record search_options =
  opt_query :: string
  opt_dateFrom :: "int option"
  opt_dateTo :: "int option"
  opt_project :: "string option"
  opt_type :: "document_type list option"
  opt_limit :: "nat option"
  opt_maxSnippets :: "nat option"
  opt_minMessages :: "int option"

record snippet =
  snip_text :: string
  snip_matchTerms :: "string list"

record search_result =
  res_agent :: agent_name
  res_sessionId :: "string option"
  res_timestamp :: "int option"
  res_project :: "string option"
  res_filePath :: "string option"
  res_type :: document_type
  res_score :: real
  res_matchedText :: string
  res_snippets :: "snippet list"
  res_matchCount :: nat
  res_messageCount :: "int option"
  res_display :: "string option"

section \<open>Building the index: deduplication\<close>

text \<open>
  \<open>buildTier1\<close> filters the collected documents through a set of seen ids; the surviving
  list becomes \<open>tier1Docs\<close> and is what the index is filled with.
\<close>

fun dedup_docs :: "string set \<Rightarrow> searchable_document list \<Rightarrow> searchable_document list" where
  "dedup_docs seen [] = []"
| "dedup_docs seen (d # ds) =
     (if doc_id d \<in> seen then dedup_docs seen ds
      else d # dedup_docs (insert (doc_id d) seen) ds)"

definition uniqueDocs :: "searchable_document list \<Rightarrow> searchable_document list" where
  "uniqueDocs docs = dedup_docs {} docs"

text \<open>\<open>tier1Docs.find((d) => d.id === id)\<close>.\<close>

definition find_doc :: "searchable_document list \<Rightarrow> string \<Rightarrow> searchable_document option" where
  "find_doc docs i = find (\<lambda>d. doc_id d = i) docs"

section \<open>Snippet extraction\<close>

definition MAX_MATCH_POSITIONS :: nat where
  "MAX_MATCH_POSITIONS = 100"

text \<open>
  The state of \<open>findAllMatchPositions\<close>: the array \<open>positions\<close> in push order and the
  dictionary \<open>positionTerms\<close>. \<open>addPosition\<close> pushes the position and records the term
  under it unless it is there already.
\<close>

type_synonym match_state = "nat list \<times> (nat \<rightharpoonup> string list)"

definition addPosition :: "nat \<Rightarrow> string \<Rightarrow> match_state \<Rightarrow> match_state" where
  "addPosition pos term st =
     (fst st @ [pos],
      (case snd st pos of
         Some existing \<Rightarrow>
           if term \<in> set existing then snd st else (snd st)(pos \<mapsto> existing @ [term])
       | None \<Rightarrow> (snd st)(pos \<mapsto> [term])))"

text \<open>
  Phase 1, the \<open>while\<close> loop for one query word: it runs while fewer than
  \<open>MAX_MATCH_POSITIONS\<close> positions are recorded and stops at the first miss.
\<close>

function exact_word :: "string \<Rightarrow> string \<Rightarrow> nat \<Rightarrow> match_state \<Rightarrow> match_state" where
  "exact_word lowerText word searchFrom st =
     (if length (fst st) < MAX_MATCH_POSITIONS then
        (case indexOf lowerText word searchFrom of
           None \<Rightarrow> st
         | Some pos \<Rightarrow> exact_word lowerText word (pos + length word) (addPosition pos word st))
      else st)"
  by pat_completeness auto
termination
  by (relation "measure (\<lambda>(lowerText, word, searchFrom, st). MAX_MATCH_POSITIONS - length (fst st))")
    (auto simp: addPosition_def)

declare exact_word.simps [simp del]

fun exact_scan :: "string \<Rightarrow> string list \<Rightarrow> match_state \<Rightarrow> match_state" where
  "exact_scan lowerText [] st = st"
| "exact_scan lowerText (word # ws) st = exact_scan lowerText ws (exact_word lowerText word 0 st)"

text \<open>
  Phase 2. \<open>fuzzy_word\<close> is the inner loop over the query words for one text word;
  \<open>fuzzy_scan\<close> is the loop over the text words with its \<open>cursor\<close>, its \<open>break\<close> at
  the cap and its \<open>continue\<close> when the word is not found.
\<close>

fun fuzzy_word :: "nat \<Rightarrow> string \<Rightarrow> string list \<Rightarrow> match_state \<Rightarrow> match_state" where
  "fuzzy_word twStart tw [] st = st"
| "fuzzy_word twStart tw (qw # qws) st =
     (if \<bar>int (length tw) - int (length qw)\<bar> > 2 then fuzzy_word twStart tw qws st
      else if levenshteinDistance tw qw \<le> 2
        then fuzzy_word twStart tw qws (addPosition twStart qw st)
        else fuzzy_word twStart tw qws st)"

fun fuzzy_scan :: "string \<Rightarrow> string list \<Rightarrow> string list \<Rightarrow> nat \<Rightarrow> match_state \<Rightarrow> match_state" where
  "fuzzy_scan lowerText queryWords [] cursor st = st"
| "fuzzy_scan lowerText queryWords (tw # tws) cursor st =
     (if length (fst st) \<ge> MAX_MATCH_POSITIONS then st
      else
        (case indexOf lowerText tw cursor of
           None \<Rightarrow> fuzzy_scan lowerText queryWords tws cursor st
         | Some twStart \<Rightarrow>
             fuzzy_scan lowerText queryWords tws (twStart + length tw)
               (fuzzy_word twStart tw queryWords st)))"

record match_positions =
  mp_positions :: "nat list"
  mp_matchCount :: nat
  mp_positionTerms :: "nat \<rightharpoonup> string list"

text \<open>
  \<open>[...new Set(positions)].sort((a, b) => a - b)\<close> is the sorted list of the distinct
  positions, whichever occurrence of a duplicate is kept.
\<close>

definition findAllMatchPositions :: "string \<Rightarrow> string list \<Rightarrow> match_positions" where
  "findAllMatchPositions lowerText queryWords =
     (let st1 = exact_scan lowerText queryWords ([], Map.empty);
          st2 = (if length (fst st1) = 0
                 then fuzzy_scan lowerText queryWords (split_re lowerText) 0 st1
                 else st1)
      in \<lparr>mp_positions = sort (remdups (fst st2)),
          mp_matchCount = length (fst st2),
          mp_positionTerms = snd st2\<rparr>)"

text \<open>
  The greedy choice of snippet centres. \<open>lastSelected\<close> starts at \<open>-Infinity\<close>, here
  \<open>None\<close>; the loop stops as soon as \<open>maxSnippets\<close> centres are chosen, a test made
  after each push.
\<close>

fun select_positions :: "nat \<Rightarrow> nat \<Rightarrow> nat list \<Rightarrow> nat option \<Rightarrow> nat list \<Rightarrow> nat list" where
  "select_positions minSeparation maxSnippets [] lastSelected selected = selected"
| "select_positions minSeparation maxSnippets (pos # ps) lastSelected selected =
     (if (case lastSelected of None \<Rightarrow> True
          | Some l \<Rightarrow> int pos - int l \<ge> int minSeparation)
      then
        (let selected' = selected @ [pos]
         in if length selected' \<ge> maxSnippets then selected'
            else select_positions minSeparation maxSnippets ps (Some pos) selected')
      else select_positions minSeparation maxSnippets ps lastSelected selected)"

fun add_terms :: "string list \<Rightarrow> string list \<Rightarrow> string list" where
  "add_terms [] matchTerms = matchTerms"
| "add_terms (t # ts) matchTerms =
     add_terms ts (if t \<in> set matchTerms then matchTerms else matchTerms @ [t])"

definition build_snippet ::
  "string \<Rightarrow> string list \<Rightarrow> nat \<Rightarrow> (nat \<rightharpoonup> string list) \<Rightarrow> nat \<Rightarrow> snippet" where
  "build_snippet text queryWords contextChars positionTerms pos =
     (let start = nat (max 0 (int pos - int contextChars));
          stop = min (length text) (pos + contextChars);
          snippetText0 = trim (slice text start stop);
          snippetText1 = (if start > 0 then ''...'' @ snippetText0 else snippetText0);
          snippetText = (if stop < length text then snippetText1 @ ''...'' else snippetText1);
          snippetLower = toLowerCase snippetText;
          matchTerms = filter (\<lambda>w. str_includes snippetLower w) queryWords;
          matchTerms' = (case positionTerms pos of
                           Some terms \<Rightarrow> add_terms terms matchTerms
                         | None \<Rightarrow> matchTerms)
      in \<lparr>snip_text = snippetText, snip_matchTerms = matchTerms'\<rparr>)"

definition extractSnippets :: "string \<Rightarrow> string \<Rightarrow> nat \<Rightarrow> nat \<Rightarrow> snippet list \<times> nat" where
  "extractSnippets text query maxSnippets contextChars =
     (if text = [] then ([], 0)
      else
        let lowerText = toLowerCase text;
            queryWords = filter (\<lambda>w. length w > 1) (split_re (toLowerCase query));
            mp = findAllMatchPositions lowerText queryWords
        in if length (mp_positions mp) = 0
           then ([\<lparr>snip_text = trim (slice text 0 (contextChars * 2)) @
                               (if length text > contextChars * 2 then ''...'' else []),
                    snip_matchTerms = []\<rparr>], 0)
           else (map (build_snippet text queryWords contextChars (mp_positionTerms mp))
                   (select_positions (contextChars * 2) maxSnippets (mp_positions mp) None []),
                 mp_matchCount mp))"

text \<open>
  \<open>selectedPositions\<close>, the centres \<open>extractSnippets\<close> builds its snippets around when
  some position was found.
\<close>

definition selectedPositions :: "string \<Rightarrow> string \<Rightarrow> nat \<Rightarrow> nat \<Rightarrow> nat list" where
  "selectedPositions text query maxSnippets contextChars =
     (let lowerText = toLowerCase text;
          queryWords = filter (\<lambda>w. length w > 1) (split_re (toLowerCase query));
          mp = findAllMatchPositions lowerText queryWords
      in select_positions (contextChars * 2) maxSnippets (mp_positions mp) None [])"

section \<open>Search: post-filters, scores, order\<close>

text \<open>
  The date filter. \<open>!ts\<close> holds for a missing timestamp and for 0; \<open>from && ts < from\<close>
  applies the bound only when \<open>from\<close> is set and is not 0, and likewise for \<open>to\<close>.
\<close>

definition date_keep :: "int option \<Rightarrow> int option \<Rightarrow> hit \<Rightarrow> bool" where
  "date_keep from to r =
     (case hit_timestamp r of
        None \<Rightarrow> True
      | Some ts \<Rightarrow>
          if ts = 0 then True
          else if (case from of Some f \<Rightarrow> f \<noteq> 0 \<and> ts < f | None \<Rightarrow> False) then False
          else if (case to of Some t \<Rightarrow> t \<noteq> 0 \<and> ts > t | None \<Rightarrow> False) then False
          else True)"

definition date_filter :: "search_options \<Rightarrow> hit list \<Rightarrow> hit list" where
  "date_filter options results =
     (if opt_dateFrom options \<noteq> None \<or> opt_dateTo options \<noteq> None
      then filter (date_keep (opt_dateFrom options) (opt_dateTo options)) results
      else results)"

text \<open>\<open>docType ?? doc?.type ?? "conversation"\<close>.\<close>

definition resolvedType :: "searchable_document list \<Rightarrow> hit \<Rightarrow> document_type" where
  "resolvedType docs r =
     (case hit_type r of
        Some t \<Rightarrow> t
      | None \<Rightarrow> (case find_doc docs (hit_id r) of Some d \<Rightarrow> doc_type d | None \<Rightarrow> Conversation))"

definition type_filter :: "search_options \<Rightarrow> searchable_document list \<Rightarrow> hit list \<Rightarrow> hit list" where
  "type_filter options docs results =
     (case opt_type options of
        Some allowedTypes \<Rightarrow> filter (\<lambda>r. resolvedType docs r \<in> set allowedTypes) results
      | None \<Rightarrow> results)"

text \<open>The project filter runs for a non-empty \<open>project\<close>; a hit with no project, or an empty one, passes.\<close>

definition project_filter :: "search_options \<Rightarrow> hit list \<Rightarrow> hit list" where
  "project_filter options results =
     (case opt_project options of
        Some p \<Rightarrow>
          if p = [] then results
          else filter (\<lambda>r. case hit_project r of
                             None \<Rightarrow> True
                           | Some proj \<Rightarrow> proj = [] \<or> str_includes (toLowerCase proj) (toLowerCase p))
                 results
      | None \<Rightarrow> results)"

definition minMessages_filter ::
  "search_options \<Rightarrow> searchable_document list \<Rightarrow> hit list \<Rightarrow> hit list" where
  "minMessages_filter options docs results =
     (case opt_minMessages options of
        Some m \<Rightarrow>
          if m = 0 then results
          else filter (\<lambda>r. case find_doc docs (hit_id r) of
                             None \<Rightarrow> True
                           | Some d \<Rightarrow> (case doc_messageCount d of None \<Rightarrow> True | Some mc \<Rightarrow> mc \<ge> m))
                 results
      | None \<Rightarrow> results)"

definition post_filter :: "search_options \<Rightarrow> searchable_document list \<Rightarrow> hit list \<Rightarrow> hit list" where
  "post_filter options docs results =
     minMessages_filter options docs
       (project_filter options (type_filter options docs (date_filter options results)))"

text \<open>
  The length of the resolved document's text, 0 when the id resolves to nothing, and the
  length penalty. Scores are floating-point numbers in the source and reals here.
\<close>

definition textLen :: "searchable_document list \<Rightarrow> hit \<Rightarrow> nat" where
  "textLen docs r = (case find_doc docs (hit_id r) of Some d \<Rightarrow> length (doc_text d) | None \<Rightarrow> 0)"

definition lengthPenalty :: "nat \<Rightarrow> real" where
  "lengthPenalty len = (if len > 500 then log 2 (real len / 500) else 0)"

definition some_or :: "'a option \<Rightarrow> 'a option \<Rightarrow> 'a option" where
  "some_or a b = (case a of Some x \<Rightarrow> Some x | None \<Rightarrow> b)"

definition map_hit :: "searchable_document list \<Rightarrow> string \<Rightarrow> nat \<Rightarrow> hit \<Rightarrow> search_result" where
  "map_hit docs query maxSnippets r =
     (let doc = find_doc docs (hit_id r);
          ex = extractSnippets (case doc of Some d \<Rightarrow> doc_text d | None \<Rightarrow> []) query maxSnippets 150
      in \<lparr>res_agent = (case some_or (hit_agent r) (map_option doc_agent doc) of
                         Some a \<Rightarrow> a | None \<Rightarrow> Claude),
          res_sessionId = some_or (hit_sessionId r) (Option.bind doc doc_sessionId),
          res_timestamp = (case hit_timestamp r of
                             Some ts \<Rightarrow> if ts = 0 then None else Some ts
                           | None \<Rightarrow> None),
          res_project = hit_project r,
          res_filePath = some_or (hit_filePath r) (Option.bind doc doc_filePath),
          res_type = resolvedType docs r,
          res_score = hit_score r / (1 + lengthPenalty (textLen docs r) * 0.5),
          res_matchedText = (case fst ex of s # _ \<Rightarrow> snip_text s | [] \<Rightarrow> []),
          res_snippets = fst ex,
          res_matchCount = snd ex,
          res_messageCount = Option.bind doc doc_messageCount,
          res_display = some_or (hit_display r) (Option.bind doc doc_display)\<rparr>)"

text \<open>
  \<open>search\<close> after the index has answered: filter, map, sort by descending score (the
  sort is stable), cut at \<open>limit\<close>.
\<close>

definition search :: "search_options \<Rightarrow> searchable_document list \<Rightarrow> hit list \<Rightarrow> search_result list" where
  "search options docs results =
     (let limit = (case opt_limit options of Some l \<Rightarrow> l | None \<Rightarrow> 20);
          maxSnippets = (case opt_maxSnippets options of Some k \<Rightarrow> k | None \<Rightarrow> 3);
          mapped = map (map_hit docs (opt_query options) maxSnippets) (post_filter options docs results)
      in take limit (sort_key (\<lambda>a. - res_score a) mapped))"

section \<open>Reading a session: the query matcher\<close>

datatype role = User | Assistant | System | Tool

record conversation_message =
  msg_role :: role
  msg_content :: string
  msg_timestamp :: "int option"

record session_content =
  ses_agent :: agent_name
  ses_sessionId :: string
  ses_timestamp :: int
  ses_project :: "string option"
  ses_messages :: "conversation_message list"

text \<open>Of a parser the handler uses its name and \<open>getSession\<close>, which answers \<open>null\<close> as \<open>None\<close>.\<close>

record agent_parser =
  parser_name :: agent_name
  getSession :: "string \<Rightarrow> session_content option"

definition findParser :: "agent_parser list \<Rightarrow> agent_name \<Rightarrow> agent_parser option" where
  "findParser parsers agent = find (\<lambda>p. parser_name p = agent) parsers"

text \<open>
  \<open>matchesMessage\<close>: no query words, no match; otherwise every query word is a substring
  of the lowercased text, or else every query word is within length difference 2 and edit
  distance 2 of some token of the text.
\<close>

definition matchesMessage :: "string list \<Rightarrow> string \<Rightarrow> bool" where
  "matchesMessage queryWords text =
     (if length queryWords = 0 then False
      else
        let lower = toLowerCase text
        in if list_all (\<lambda>w. str_includes lower w) queryWords then True
           else
             let msgTokens = tokenize text
             in list_all (\<lambda>qw. list_ex (\<lambda>mt.
                    if \<bar>int (length mt) - int (length qw)\<bar> > 2 then False
                    else levenshteinDistance mt qw \<le> 2) msgTokens) queryWords)"

text \<open>\<open>allMessages.map((m, i) => (matchesMessage(m.content) ? i : -1)).filter((i) => i !== -1)\<close>.\<close>

definition allMatchIndices :: "string list \<Rightarrow> conversation_message list \<Rightarrow> int list" where
  "allMatchIndices queryWords allMessages =
     map int (filter (\<lambda>i. matchesMessage queryWords (msg_content (allMessages ! i)))
                [0..<length allMessages])"

record match_window =
  win_start :: int
  win_end :: int
  win_matchIndices :: "int list"

definition rawWindows :: "int \<Rightarrow> int \<Rightarrow> int list \<Rightarrow> match_window list" where
  "rawWindows totalMessages cw selectedMatches =
     map (\<lambda>idx. \<lparr>win_start = max 0 (idx - cw),
                  win_end = min (totalMessages - 1) (idx + cw),
                  win_matchIndices = [idx]\<rparr>) selectedMatches"

text \<open>
  The merge loop: \<open>merged\<close> is the accumulator, its last window is extended when the next
  raw window starts at most one past its end, otherwise the raw window is appended.
\<close>

fun merge_windows :: "match_window list \<Rightarrow> match_window list \<Rightarrow> match_window list" where
  "merge_windows merged [] = merged"
| "merge_windows merged (win # wins) =
     (if merged \<noteq> [] \<and> win_start win \<le> win_end (last merged) + 1
      then merge_windows
             (butlast merged @
                [(last merged)\<lparr>win_end := max (win_end (last merged)) (win_end win),
                               win_matchIndices := win_matchIndices (last merged) @ win_matchIndices win\<rparr>])
             wins
      else merge_windows (merged @ [win]) wins)"

record window_message =
  wm_index :: int
  wm_role :: role
  wm_content :: string
  wm_timestamp :: "int option"
  wm_matched :: bool

record window_output =
  wo_startIndex :: int
  wo_endIndex :: int
  wo_matchIndices :: "int list"
  wo_messages :: "window_message list"

definition window_output_of :: "conversation_message list \<Rightarrow> match_window \<Rightarrow> window_output" where
  "window_output_of allMessages win =
     \<lparr>wo_startIndex = win_start win,
      wo_endIndex = win_end win,
      wo_matchIndices = win_matchIndices win,
      wo_messages =
        map (\<lambda>(i, m). \<lparr>wm_index = win_start win + int i,
                        wm_role = msg_role m,
                        wm_content = msg_content m,
                        wm_timestamp = msg_timestamp m,
                        wm_matched = (win_start win + int i \<in> set (win_matchIndices win))\<rparr>)
          (enumerate 0 (take (nat (win_end win + 1) - nat (win_start win))
                          (drop (nat (win_start win)) allMessages)))\<rparr>"

text \<open>
  The windows of all-matches mode for a session with at least one match: cap the match
  locations at \<open>maxMatches\<close> when it is given (and not 0), build the raw windows with
  \<open>contextWindow ?? 0\<close>, merge.
\<close>

definition selectedMatches :: "nat option \<Rightarrow> int list \<Rightarrow> int list" where
  "selectedMatches maxMatches indices =
     (case maxMatches of
        Some k \<Rightarrow> if k = 0 then indices else take k indices
      | None \<Rightarrow> indices)"

definition mergedWindows :: "nat \<Rightarrow> nat option \<Rightarrow> nat option \<Rightarrow> int list \<Rightarrow> match_window list" where
  "mergedWindows totalMessages contextWindow maxMatches indices =
     merge_windows []
       (rawWindows (int totalMessages) (case contextWindow of Some c \<Rightarrow> int c | None \<Rightarrow> 0)
          (selectedMatches maxMatches indices))"

text \<open>
  What the handler answers: an error (\<open>isError: true\<close> with its message), or one of the
  three payloads. \<open>AllNotFound\<close> is \<open>{totalMessages, totalMatches: 0, queryNotFound: true}\<close>;
  \<open>AllWindows\<close> carries \<open>totalMessages\<close>, \<open>totalMatches\<close>, \<open>windowedMatches\<close> and the
  windows; \<open>Single\<close> carries \<open>totalMessages\<close>, the returned messages,
  \<open>matchedMessageIndex\<close>, \<open>allMatchIndices\<close> and \<open>queryNotFound\<close>.
\<close>

datatype read_output =
  AllNotFound nat
| AllWindows nat nat nat "window_output list"
| Single nat "window_message list" "int option" "int list option" bool

datatype read_response = ErrorResponse string | OkResponse read_output

fun agent_str :: "agent_name \<Rightarrow> string" where
  "agent_str Claude = ''claude''"
| "agent_str Codex = ''codex''"
| "agent_str Gemini = ''gemini''"
| "agent_str Antigravity = ''antigravity''"

text \<open>
  Single-match mode. \<open>matchIndex\<close> is \<open>None\<close> for \<open>undefined\<close> and \<open>Some (-1)\<close> when
  \<open>findIndex\<close> finds nothing.
\<close>

definition findIndex :: "('a \<Rightarrow> bool) \<Rightarrow> 'a list \<Rightarrow> int" where
  "findIndex P xs = (case find (\<lambda>i. P (xs ! i)) [0..<length xs] of Some i \<Rightarrow> int i | None \<Rightarrow> - 1)"

definition single_match ::
  "string list \<Rightarrow> bool \<Rightarrow> nat option \<Rightarrow> nat option \<Rightarrow> nat option \<Rightarrow>
   conversation_message list \<Rightarrow> read_output" where
  "single_match queryWords hasQuery contextWindow offset limit allMessages =
     (let matchIndex0 =
            (if hasQuery
             then Some (findIndex (\<lambda>m. matchesMessage queryWords (msg_content m)) allMessages)
             else None);
          narrowed =
            (case (matchIndex0, contextWindow) of
               (Some mi, Some cw) \<Rightarrow>
                 if mi \<noteq> - 1
                 then
                   let start = max 0 (mi - int cw);
                       stop = min (int (length allMessages)) (mi + int cw + 1)
                   in (take (nat stop - nat start) (drop (nat start) allMessages), Some (mi - start))
                 else (allMessages, matchIndex0)
             | _ \<Rightarrow> (allMessages, matchIndex0));
          messages1 = fst narrowed;
          matchIndex = snd narrowed;
          sliceStart = (case offset of
                          Some off \<Rightarrow> if off > 0 then min off (length messages1) else 0
                        | None \<Rightarrow> 0);
          messages2 = drop sliceStart messages1;
          messages3 = (case limit of Some l \<Rightarrow> take l messages2 | None \<Rightarrow> messages2);
          found = (case matchIndex of Some mi \<Rightarrow> mi \<noteq> - 1 | None \<Rightarrow> False)
      in Single (length allMessages)
           (map (\<lambda>(i, m). \<lparr>wm_index = int sliceStart + int i,
                           wm_role = msg_role m,
                           wm_content = msg_content m,
                           wm_timestamp = msg_timestamp m,
                           wm_matched = (case matchIndex of
                                           Some mi \<Rightarrow> int i = mi - int sliceStart
                                         | None \<Rightarrow> False)\<rparr>)
              (enumerate 0 messages3))
           (if found then map_option (\<lambda>mi. mi + int sliceStart) matchIndex else None)
           (if found then Some (allMatchIndices queryWords allMessages) else None)
           (\<not> found \<and> hasQuery))"

text \<open>
  The \<open>logbook_read\<close> handler. A query counts as given when it is present and not the
  empty string.
\<close>

definition logbook_read ::
  "agent_parser list \<Rightarrow> agent_name \<Rightarrow> string \<Rightarrow> string option \<Rightarrow> nat option \<Rightarrow> bool \<Rightarrow>
   nat option \<Rightarrow> nat option \<Rightarrow> nat option \<Rightarrow> read_response" where
  "logbook_read parsers agent sessionId query contextWindow allMatches maxMatches offset limit =
     (case findParser parsers agent of
        None \<Rightarrow> ErrorResponse (''Agent \"'' @ agent_str agent @ ''\" not available.'')
      | Some parser \<Rightarrow>
          (case getSession parser sessionId of
             None \<Rightarrow>
               ErrorResponse (''Session \"'' @ sessionId @ ''\" not found for agent \"'' @
                              agent_str agent @ ''\".'')
           | Some session \<Rightarrow>
               let allMessages = ses_messages session;
                   totalMessages = length allMessages;
                   hasQuery = (case query of Some q \<Rightarrow> q \<noteq> [] | None \<Rightarrow> False);
                   queryWords = (case query of
                                   Some q \<Rightarrow> if q \<noteq> [] then tokenize q else []
                                 | None \<Rightarrow> [])
               in if hasQuery \<and> allMatches
                  then
                    let indices = allMatchIndices queryWords allMessages
                    in if length indices = 0 then OkResponse (AllNotFound totalMessages)
                       else OkResponse
                              (AllWindows totalMessages (length indices)
                                 (length (selectedMatches maxMatches indices))
                                 (map (window_output_of allMessages)
                                    (mergedWindows totalMessages contextWindow maxMatches indices)))
                  else OkResponse
                         (single_match queryWords hasQuery contextWindow offset limit allMessages)))"

definition queryNotFound :: "read_output \<Rightarrow> bool" where
  "queryNotFound out =
     (case out of AllNotFound _ \<Rightarrow> True | AllWindows _ _ _ _ \<Rightarrow> False | Single _ _ _ _ q \<Rightarrow> q)"

section \<open>Merged windows and the match predicate, as specified\<close>

text \<open>
  The same loop with the last merged window held apart from the finished ones; a proof
  device for \<open>merge_windows\<close>.
\<close>

fun merge_from :: "match_window \<Rightarrow> match_window list \<Rightarrow> match_window list" where
  "merge_from cur [] = [cur]"
| "merge_from cur (win # wins) =
     (if win_start win \<le> win_end cur + 1
      then merge_from (cur\<lparr>win_end := max (win_end cur) (win_end win),
                           win_matchIndices := win_matchIndices cur @ win_matchIndices win\<rparr>) wins
      else cur # merge_from win wins)"

text \<open>
  The words of the specification. \<open>joined n cw i j\<close>: the raw window of match \<open>j\<close>, clamped
  to a session of \<open>n\<close> messages, starts at most one past the end of the raw window of match
  \<open>i\<close>. \<open>chained\<close>: each match of a window is joined to the next one. \<open>window_ok\<close>: a
  window spans from the clamped start of its first match to the clamped end of its last
  match, and its matches are chained. \<open>separated\<close>: each window starts more than one past
  the end of the window before it.
\<close>

definition joined :: "int \<Rightarrow> int \<Rightarrow> int \<Rightarrow> int \<Rightarrow> bool" where
  "joined n cw i j = (max 0 (j - cw) \<le> min (n - 1) (i + cw) + 1)"

fun chained :: "int \<Rightarrow> int \<Rightarrow> int list \<Rightarrow> bool" where
  "chained n cw (i # j # js) = (joined n cw i j \<and> chained n cw (j # js))"
| "chained n cw js = True"

definition window_ok :: "int \<Rightarrow> int \<Rightarrow> match_window \<Rightarrow> bool" where
  "window_ok n cw w =
     (win_matchIndices w \<noteq> []
      \<and> win_start w = max 0 (hd (win_matchIndices w) - cw)
      \<and> win_end w = min (n - 1) (last (win_matchIndices w) + cw)
      \<and> chained n cw (win_matchIndices w))"

fun separated :: "match_window list \<Rightarrow> bool" where
  "separated (w1 # w2 # ws) = (win_start w2 > win_end w1 + 1 \<and> separated (w2 # ws))"
| "separated ws = True"

text \<open>The window that spans a group of matches.\<close>

definition span :: "int \<Rightarrow> int \<Rightarrow> int list \<Rightarrow> match_window" where
  "span n cw g = \<lparr>win_start = max 0 (hd g - cw), win_end = min (n - 1) (last g + cw),
                  win_matchIndices = g\<rparr>"

text \<open>
  The words of the specification for the match predicate, stated without the folding
  function of the code. \<open>same_letter c d\<close>: the two code units are equal, or one is a
  capital letter (\<open>A..Z\<close>, or U+00C0 to U+00DE other than U+00D7) and the other is its
  small form, 32 further on. \<open>ci_substring w text\<close>: some substring of \<open>text\<close> equals
  \<open>w\<close> up to case, letter by letter. \<open>close_to qw mt\<close>: the token \<open>mt\<close> differs from
  the query word \<open>qw\<close> in length by at most 2 and is within edit distance 2 of it.
\<close>

definition is_capital :: "char \<Rightarrow> bool" where
  "is_capital c =
     (let n = (of_char c :: nat)
      in (65 \<le> n \<and> n \<le> 90) \<or> (192 \<le> n \<and> n \<le> 222 \<and> n \<noteq> 215))"

definition same_letter :: "char \<Rightarrow> char \<Rightarrow> bool" where
  "same_letter c d =
     (c = d
      \<or> (is_capital c \<and> (of_char d :: nat) = of_char c + 32)
      \<or> (is_capital d \<and> (of_char c :: nat) = of_char d + 32))"

definition ci_substring :: "string \<Rightarrow> string \<Rightarrow> bool" where
  "ci_substring w text = list_ex (\<lambda>s. list_all2 same_letter s w) (sublists text)"

definition close_to :: "string \<Rightarrow> string \<Rightarrow> bool" where
  "close_to qw mt = (\<bar>int (length mt) - int (length qw)\<bar> \<le> 2 \<and> levenshteinDistance mt qw \<le> 2)"

text \<open>
  The words of the specification for the fuzzy phase. \<open>word_at s k w\<close>: a word of \<open>s\<close>
  starts at offset \<open>k\<close> and is \<open>w\<close>, that is, \<open>k\<close> is the start of \<open>s\<close> or
  comes right after a separator, and \<open>w\<close> is the non-empty run of characters other than
  separators from \<open>k\<close> up to the next separator or the end of \<open>s\<close>. The document words
  of the specification are the tokens: the words of the lowercased text with more than one
  character.
\<close>

definition word_at :: "string \<Rightarrow> nat \<Rightarrow> string \<Rightarrow> bool" where
  "word_at s k w =
     (k < length s
      \<and> (k = 0 \<or> is_sep (s ! (k - 1)))
      \<and> w = takeWhile (\<lambda>c. \<not> is_sep c) (drop k s)
      \<and> w \<noteq> [])"

text \<open>
  A proof device for the fuzzy phase. \<open>scan_offsets s\<close> lists the pieces of \<open>split\<close>
  on \<open>s\<close>, each with the offset at which the \<open>indexOf\<close> of the fuzzy scan finds it: a
  non-empty piece where it starts, the empty piece that \<open>split\<close> yields after trailing
  separators at the cursor, which is the end of the word before it. \<open>fuzzy_positions\<close> is
  the fuzzy scan over such a list: it visits the pieces in order, stops at the first piece
  reached with \<open>MAX_MATCH_POSITIONS\<close> or more positions recorded, and records the offset of
  a visited piece once for each query word that is close to it.
\<close>

function scan_offsets_from :: "nat \<Rightarrow> string \<Rightarrow> (nat \<times> string) list" where
  "scan_offsets_from k s =
     (let w = takeWhile (\<lambda>c. \<not> is_sep c) s;
          r = dropWhile (\<lambda>c. \<not> is_sep c) s
      in if r = [] then [(k, w)]
         else if dropWhile is_sep r = [] then [(k, w), (k + length w, [])]
         else (k, w) #
              scan_offsets_from (k + length w + length (takeWhile is_sep r)) (dropWhile is_sep r))"
  by pat_completeness auto
termination
proof (relation "measure (\<lambda>(k, s). length s)")
  show "wf (measure (\<lambda>(k, s). length s))" by simp
next
  fix k :: nat and s :: string and w r
  assume r: "r = dropWhile (\<lambda>c. \<not> is_sep c) s" and ne: "r \<noteq> []"
  from ne obtain c cs where rc: "r = c # cs" by (cases r) auto
  from ne have "\<not> \<not> is_sep (hd r)" unfolding r by (rule hd_dropWhile)
  then have "is_sep c" by (simp add: rc)
  then have "length (dropWhile is_sep r) \<le> length cs"
    by (simp add: rc length_dropWhile_le)
  moreover have "length r \<le> length s"
    by (simp add: r length_dropWhile_le)
  ultimately show "((k + length w + length (takeWhile is_sep r), dropWhile is_sep r), (k, s))
      \<in> measure (\<lambda>(k, s). length s)"
    by (simp add: rc)
qed

declare scan_offsets_from.simps [simp del]

definition scan_offsets :: "string \<Rightarrow> (nat \<times> string) list" where
  "scan_offsets s = scan_offsets_from 0 s"

fun fuzzy_positions :: "string list \<Rightarrow> (nat \<times> string) list \<Rightarrow> nat list \<Rightarrow> nat list" where
  "fuzzy_positions queryWords [] positions = positions"
| "fuzzy_positions queryWords ((k, tw) # rest) positions =
     (if length positions \<ge> MAX_MATCH_POSITIONS then positions
      else fuzzy_positions queryWords rest
             (positions @ map (\<lambda>qw. k) (filter (\<lambda>qw. close_to qw tw) queryWords)))"

text \<open>Every term recorded under a position belongs to the set \<open>Q\<close>.\<close>

definition terms_within :: "string set \<Rightarrow> match_state \<Rightarrow> bool" where
  "terms_within Q st = (\<forall>pos ts. snd st pos = Some ts \<longrightarrow> set ts \<subseteq> Q)"

section \<open>Example data\<close>

definition ex_doc :: "string \<Rightarrow> string \<Rightarrow> searchable_document" where
  "ex_doc i t = \<lparr>doc_id = i, doc_agent = Claude, doc_sessionId = None, doc_timestamp = None,
     doc_project = None, doc_filePath = None, doc_display = None, doc_text = t,
     doc_type = Conversation, doc_messageCount = None\<rparr>"


definition ex_message :: "string \<Rightarrow> conversation_message" where
  "ex_message t = \<lparr>msg_role = User, msg_content = t, msg_timestamp = None\<rparr>"

text \<open>A session of 10 messages in which exactly the messages 2, 3 and 7 mention a needle.\<close>

definition ex_messages :: "conversation_message list" where
  "ex_messages = map ex_message
     [''alpha'', ''beta'', ''find the Needle here'', ''needle again'', ''gamma'',
      ''delta'', ''epsilon'', ''another needle'', ''zeta'', ''eta'']"

definition ex_session :: session_content where
  "ex_session = \<lparr>ses_agent = Claude, ses_sessionId = ''session-1'', ses_timestamp = 1738368000000,
     ses_project = None, ses_messages = ex_messages\<rparr>"

definition ex_parser :: agent_parser where
  "ex_parser = \<lparr>parser_name = Claude,
     getSession = (\<lambda>sid. if sid = ''session-1'' then Some ex_session else None)\<rparr>"

definition ex_hit :: "string \<Rightarrow> real \<Rightarrow> int option \<Rightarrow> hit" where
  "ex_hit i s ts = \<lparr>hit_id = i, hit_score = s, hit_agent = Some Claude, hit_sessionId = None,
     hit_timestamp = ts, hit_project = None, hit_type = Some Conversation, hit_filePath = None,
     hit_display = None\<rparr>"

definition ex_options :: "string \<Rightarrow> int option \<Rightarrow> int option \<Rightarrow> search_options" where
  "ex_options q from to = \<lparr>opt_query = q, opt_dateFrom = from, opt_dateTo = to, opt_project = None,
     opt_type = None, opt_limit = None, opt_maxSnippets = None, opt_minMessages = None\<rparr>"

definition ex_docs :: "searchable_document list" where
  "ex_docs = [ex_doc ''short'' (replicate 400 CHR ''x''), ex_doc ''long'' (replicate 4000 CHR ''x'')]"

section \<open>The edit distance is the Levenshtein distance\<close>

lemma lev_Nil2 [simp]: "lev xs [] = length xs"
  by (cases xs) auto

lemma edits_only_insert: "edits [] ys (length ys)"
  by (induction ys) (auto intro: edits.intros)

lemma edits_only_delete: "edits xs [] (length xs)"
  by (induction xs) (auto intro: edits.intros)

lemma edits_lev: "edits xs ys (lev xs ys)"
proof (induction xs ys rule: lev.induct)
  case (1 ys)
  show ?case by (simp add: edits_only_insert)
next
  case (2 x xs)
  show ?case using edits_only_delete [of "x # xs"] by simp
next
  case (3 x xs y ys)
  have a: "edits (x # xs) (y # ys) (lev xs ys + (if x = y then 0 else 1))"
    using 3(1) by (auto intro: edits.intros)
  have b: "edits (x # xs) (y # ys) (lev xs (y # ys) + 1)"
    using 3(2) by (auto intro: edits.intros)
  have c: "edits (x # xs) (y # ys) (lev (x # xs) ys + 1)"
    using 3(3) by (auto intro: edits.intros)
  show ?case using a b c unfolding lev.simps min_def by presburger
qed

lemma lev_delete_le: "lev (x # xs) ys \<le> Suc (lev xs ys)"
  by (cases ys) auto

lemma lev_insert_le: "lev xs (y # ys) \<le> Suc (lev xs ys)"
  by (cases xs) auto

lemma lev_le_edits: "edits xs ys n \<Longrightarrow> lev xs ys \<le> n"
proof (induction rule: edits.induct)
  case edits_nil
  show ?case by simp
next
  case (edits_keep xs ys n x)
  then show ?case by simp
next
  case (edits_subst xs ys n x y)
  then show ?case by (auto simp: min_def)
next
  case (edits_delete xs ys n x)
  then show ?case using lev_delete_le [of x xs ys] by linarith
next
  case (edits_insert xs ys n y)
  then show ?case using lev_insert_le [of xs y ys] by linarith
qed

lemma edits_sym: "edits xs ys n \<Longrightarrow> edits ys xs n"
  by (induction rule: edits.induct) (auto intro: edits.intros)

lemma edits_snoc_keep: "edits xs ys n \<Longrightarrow> edits (xs @ [x]) (ys @ [x]) n"
  by (induction rule: edits.induct) (auto intro: edits.intros)

lemma edits_snoc_subst: "edits xs ys n \<Longrightarrow> edits (xs @ [x]) (ys @ [y]) (Suc n)"
  by (induction rule: edits.induct) (auto intro: edits.intros)

lemma edits_snoc_delete: "edits xs ys n \<Longrightarrow> edits (xs @ [x]) ys (Suc n)"
  by (induction rule: edits.induct) (auto intro: edits.intros)

lemma edits_snoc_insert: "edits xs ys n \<Longrightarrow> edits xs (ys @ [y]) (Suc n)"
  by (induction rule: edits.induct) (auto intro: edits.intros)

lemma edits_rev: "edits xs ys n \<Longrightarrow> edits (rev xs) (rev ys) n"
  by (induction rule: edits.induct)
    (auto intro: edits_nil edits_snoc_keep edits_snoc_subst edits_snoc_delete edits_snoc_insert)

lemma lev_rev: "lev (rev xs) (rev ys) = lev xs ys"
proof (rule antisym)
  show "lev (rev xs) (rev ys) \<le> lev xs ys"
    by (rule lev_le_edits [OF edits_rev [OF edits_lev]])
  have "edits (rev (rev xs)) (rev (rev ys)) (lev (rev xs) (rev ys))"
    by (rule edits_rev [OF edits_lev])
  then show "lev xs ys \<le> lev (rev xs) (rev ys)"
    using lev_le_edits by simp
qed

lemma lev_sym: "lev xs ys = lev ys xs"
  by (rule antisym) (rule lev_le_edits [OF edits_sym [OF edits_lev]])+

lemma edits_drop_right:
  "edits xs zs m \<Longrightarrow> zs = y # ys \<Longrightarrow> \<exists>m'. m' \<le> Suc m \<and> edits xs ys m'"
proof (induction arbitrary: y ys rule: edits.induct)
  case edits_nil
  then show ?case by simp
next
  case (edits_keep xs ys' n x)
  then have "edits (x # xs) ys (Suc n)" by (auto intro: edits.intros)
  then show ?case by blast
next
  case (edits_subst xs ys' n x y')
  then have "edits (x # xs) ys (Suc n)" by (auto intro: edits.intros)
  then show ?case by (meson le_SucI order_refl)
next
  case (edits_delete xs zs n x)
  from edits_delete.IH [OF edits_delete.prems]
  obtain m' where "m' \<le> Suc n" "edits xs ys m'" by blast
  then have "Suc m' \<le> Suc (Suc n)" "edits (x # xs) ys (Suc m')"
    by (auto intro: edits.intros)
  then show ?case by blast
next
  case (edits_insert xs ys' n y')
  then have "edits xs ys n" by simp
  then show ?case by (meson le_SucI order_refl)
qed

lemma lev_lipschitz_right: "lev xs ys \<le> Suc (lev xs (y # ys))"
proof -
  obtain m' where "m' \<le> Suc (lev xs (y # ys))" "edits xs ys m'"
    using edits_drop_right [OF edits_lev refl] by blast
  then show ?thesis using lev_le_edits by fastforce
qed

lemma lev_lipschitz_left: "lev xs ys \<le> Suc (lev (x # xs) ys)"
  using lev_lipschitz_right [of ys xs x] by (simp add: lev_sym [of xs] lev_sym [of "x # xs"])

lemma lev_Cons_Cons:
  "lev (x # xs) (y # ys) =
     (if x = y then lev xs ys else 1 + min (lev xs ys) (min (lev xs (y # ys)) (lev (x # xs) ys)))"
  using lev_lipschitz_right [of xs ys y] lev_lipschitz_left [of xs ys x] by auto

lemma lev_snoc_snoc:
  "lev (xs @ [x]) (ys @ [y]) =
     (if x = y then lev xs ys else 1 + min (lev xs ys) (min (lev xs (ys @ [y])) (lev (xs @ [x]) ys)))"
proof -
  have "lev (xs @ [x]) (ys @ [y]) = lev (x # rev xs) (y # rev ys)"
    using lev_rev [of "xs @ [x]" "ys @ [y]"] by simp
  also have "\<dots> = (if x = y then lev (rev xs) (rev ys)
       else 1 + min (lev (rev xs) (rev ys))
                  (min (lev (rev xs) (rev (ys @ [y]))) (lev (rev (xs @ [x])) (rev ys))))"
    by (simp only: lev_Cons_Cons rev_append rev.simps append.simps)
  finally show ?thesis by (simp only: lev_rev)
qed

lemma lev_zero_iff: "lev xs ys = 0 \<longleftrightarrow> xs = ys"
  by (induction xs ys rule: lev.induct) auto

lemma lev_inner_row:
  assumes "0 < i" "i \<le> length a" "n = length b" "length dp = n + 1" "0 < j" "j \<le> n + 1"
    and filled: "\<forall>k<j. dp ! k = lev (take i a) (take k b)"
    and pending: "\<forall>k. j \<le> k \<and> k \<le> n \<longrightarrow> dp ! k = lev (take (i - 1) a) (take k b)"
    and prev: "prev = lev (take (i - 1) a) (take (j - 1) b)"
  shows "lev_inner (a ! (i - 1)) b n dp prev j = map (\<lambda>k. lev (take i a) (take k b)) [0..<n + 1]"
  using assms(4-)
proof (induction "n + 1 - j" arbitrary: dp prev j)
  case 0
  then have j: "j = n + 1" by simp
  have "dp = map (\<lambda>k. lev (take i a) (take k b)) [0..<n + 1]"
  proof (rule nth_equalityI)
    show "length dp = length (map (\<lambda>k. lev (take i a) (take k b)) [0..<n + 1])"
      using "0.prems"(1) by simp
  next
    fix k assume "k < length dp"
    then have "k < j" using "0.prems"(1) j by simp
    then have "dp ! k = lev (take i a) (take k b)" using "0.prems"(4) by blast
    moreover have "k < n + 1" using \<open>k < j\<close> j by simp
    ultimately show "dp ! k = map (\<lambda>k. lev (take i a) (take k b)) [0..<n + 1] ! k"
      by (simp del: upt_Suc)
  qed
  moreover have "lev_inner (a ! (i - 1)) b n dp prev j = dp"
    using j by (simp add: lev_inner.simps)
  ultimately show ?case by simp
next
  case (Suc d)
  then have jn: "j \<le> n" by linarith
  define v where "v = (if a ! (i - 1) = b ! (j - 1) then prev
                       else 1 + min prev (min (dp ! j) (dp ! (j - 1))))"
  define dp' where "dp' = dp[j := v]"
  have ta: "take i a = take (i - 1) a @ [a ! (i - 1)]"
    using assms(1,2) take_Suc_conv_app_nth [of "i - 1" a] by simp
  have tb: "take j b = take (j - 1) b @ [b ! (j - 1)]"
    using Suc.prems(2) jn assms(3) take_Suc_conv_app_nth [of "j - 1" b] by simp
  have dj: "dp ! j = lev (take (i - 1) a) (take j b)"
    using Suc.prems(5) jn by blast
  have dj1: "dp ! (j - 1) = lev (take i a) (take (j - 1) b)"
    using Suc.prems(4) Suc.prems(2) by simp
  have "lev (take i a) (take j b) =
      (if a ! (i - 1) = b ! (j - 1) then lev (take (i - 1) a) (take (j - 1) b)
       else 1 + min (lev (take (i - 1) a) (take (j - 1) b))
                  (min (lev (take (i - 1) a) (take j b)) (lev (take i a) (take (j - 1) b))))"
    using lev_snoc_snoc [of "take (i - 1) a" "a ! (i - 1)" "take (j - 1) b" "b ! (j - 1)"]
    by (simp only: ta [symmetric] tb [symmetric])
  then have v: "v = lev (take i a) (take j b)"
    unfolding v_def using dj dj1 Suc.prems(6) by simp
  have step: "lev_inner (a ! (i - 1)) b n dp prev j = lev_inner (a ! (i - 1)) b n dp' (dp ! j) (j + 1)"
    using jn by (subst lev_inner.simps) (simp add: dp'_def v_def Let_def)
  have "lev_inner (a ! (i - 1)) b n dp' (dp ! j) (j + 1) =
      map (\<lambda>k. lev (take i a) (take k b)) [0..<n + 1]"
  proof (rule Suc.hyps(1))
    show "d = n + 1 - (j + 1)" using Suc.hyps(2) by simp
    show "length dp' = n + 1" using Suc.prems(1) by (simp add: dp'_def)
    show "0 < j + 1" by simp
    show "j + 1 \<le> n + 1" using jn by simp
    show "\<forall>k<j + 1. dp' ! k = lev (take i a) (take k b)"
    proof (intro allI impI)
      fix k assume "k < j + 1"
      then consider "k < j" | "k = j" by linarith
      then show "dp' ! k = lev (take i a) (take k b)"
      proof cases
        case 1
        then show ?thesis using Suc.prems(4) by (simp add: dp'_def)
      next
        case 2
        then show ?thesis using v Suc.prems(1) jn by (simp add: dp'_def)
      qed
    qed
    show "\<forall>k. j + 1 \<le> k \<and> k \<le> n \<longrightarrow> dp' ! k = lev (take (i - 1) a) (take k b)"
      using Suc.prems(5) by (simp add: dp'_def)
    show "dp ! j = lev (take (i - 1) a) (take (j + 1 - 1) b)"
      using dj by simp
  qed
  with step show ?case by simp
qed

lemma lev_outer_rows:
  assumes "n = length b" "m = length a" "0 < i" "i \<le> m + 1"
    and "dp = map (\<lambda>k. lev (take (i - 1) a) (take k b)) [0..<n + 1]"
  shows "lev_outer a b m n dp i = map (\<lambda>k. lev a (take k b)) [0..<n + 1]"
  using assms(3-)
proof (induction "m + 1 - i" arbitrary: dp i)
  case 0
  then have "i = m + 1" by simp
  then show ?case using "0.prems" assms(2) by (simp add: lev_outer.simps del: upt_Suc)
next
  case (Suc d)
  then have im: "i \<le> m" by linarith
  define dp0 where "dp0 = dp[0 := i]"
  define row where "row = lev_inner (a ! (i - 1)) b n dp0 (dp ! 0) 1"
  have len: "length dp = n + 1" using Suc.prems(3) by simp
  have row_eq: "row = map (\<lambda>k. lev (take i a) (take k b)) [0..<n + 1]"
    unfolding row_def
  proof (rule lev_inner_row)
    show "0 < i" by fact
    show "i \<le> length a" using im assms(2) by simp
    show "n = length b" by fact
    show "length dp0 = n + 1" using len by (simp add: dp0_def)
    show "0 < (1::nat)" by simp
    show "1 \<le> n + 1" by simp
    show "\<forall>k<1. dp0 ! k = lev (take i a) (take k b)"
      using len im assms(2) by (simp add: dp0_def)
    show "\<forall>k. 1 \<le> k \<and> k \<le> n \<longrightarrow> dp0 ! k = lev (take (i - 1) a) (take k b)"
      using Suc.prems(3) by (auto simp: dp0_def simp del: upt_Suc)
    show "dp ! 0 = lev (take (i - 1) a) (take (1 - 1) b)"
      using Suc.prems(3) by (simp del: upt_Suc)
  qed
  have step: "lev_outer a b m n dp i = lev_outer a b m n row (i + 1)"
    using im by (subst lev_outer.simps) (simp add: row_def dp0_def Let_def)
  have "lev_outer a b m n row (i + 1) = map (\<lambda>k. lev a (take k b)) [0..<n + 1]"
  proof (rule Suc.hyps(1))
    show "d = m + 1 - (i + 1)" using Suc.hyps(2) by simp
    show "0 < i + 1" by simp
    show "i + 1 \<le> m + 1" using im by simp
    show "row = map (\<lambda>k. lev (take (i + 1 - 1) a) (take k b)) [0..<n + 1]"
      using row_eq by simp
  qed
  with step show ?case by simp
qed

lemma levenshteinDistance_lev: "levenshteinDistance a b = lev a b"
proof -
  have "lev_outer a b (length a) (length b) [0..<length b + 1] 1 =
      map (\<lambda>k. lev a (take k b)) [0..<length b + 1]"
  proof (rule lev_outer_rows)
    show "[0..<length b + 1] = map (\<lambda>k. lev (take (1 - 1) a) (take k b)) [0..<length b + 1]"
      by (rule nth_equalityI) (auto simp del: upt_Suc)
  qed simp_all
  then show ?thesis
    by (simp add: levenshteinDistance_def Let_def del: upt_Suc)
qed

lemma lev_subst_le: "lev (c # ss) zs \<le> Suc (lev (d # ss) zs)"
proof (induction zs)
  case Nil
  show ?case by simp
next
  case (Cons z zs)
  have "lev (c # ss) (z # zs) \<le> Suc (lev ss zs)" by (auto simp: min_def)
  moreover have "lev (c # ss) (z # zs) \<le> Suc (lev ss (z # zs))" by (rule lev_delete_le)
  moreover have "lev (c # ss) (z # zs) \<le> Suc (Suc (lev (d # ss) zs))"
    using lev_insert_le [of "c # ss" z zs] Cons.IH by linarith
  ultimately show ?case by (auto simp: min_def)
qed

lemma one_edit_lev: "one_edit a b \<Longrightarrow> lev a zs \<le> Suc (lev b zs)"
proof (induction arbitrary: zs rule: one_edit.induct)
  case (one_insert ss c)
  show ?case by (rule lev_lipschitz_left)
next
  case (one_delete c ss)
  show ?case using lev_delete_le [of c ss zs] by simp
next
  case (one_subst c ss d)
  show ?case by (rule lev_subst_le)
next
  case (one_later a b p)
  show ?case
  proof (induction zs)
    case Nil
    show ?case using one_later.IH [of "[]"] by simp
  next
    case (Cons z zs)
    have "lev (p # a) (z # zs) \<le> Suc (lev b zs + (if p = z then 0 else 1))"
      using one_later.IH [of zs] by (auto simp: min_def)
    moreover have "lev (p # a) (z # zs) \<le> Suc (lev b (z # zs) + 1)"
      using one_later.IH [of "z # zs"] lev_delete_le [of p a "z # zs"] by linarith
    moreover have "lev (p # a) (z # zs) \<le> Suc (lev (p # b) zs + 1)"
      using Cons.IH lev_insert_le [of "p # a" z zs] by linarith
    ultimately show ?case
      unfolding lev.simps(3) [of p b z zs] min_def by presburger
  qed
qed

lemma lev_same [simp]: "lev a a = 0"
  by (simp add: lev_zero_iff)

lemma lev_le_transforms: "transforms n a b \<Longrightarrow> lev a b \<le> n"
proof (induction rule: transforms.induct)
  case (transforms_0 a)
  show ?case by simp
next
  case (transforms_Suc a b n c)
  then show ?case using one_edit_lev [of a b c] by linarith
qed

lemma transforms_later: "transforms n a b \<Longrightarrow> transforms n (p # a) (p # b)"
  by (induction rule: transforms.induct) (auto intro: transforms.intros one_edit.intros)

lemma edits_transforms: "edits a b n \<Longrightarrow> transforms n a b"
proof (induction rule: edits.induct)
  case edits_nil
  show ?case by (rule transforms_0)
next
  case (edits_keep xs ys n x)
  then show ?case by (simp add: transforms_later)
next
  case (edits_subst xs ys n x y)
  show ?case
    by (rule transforms_Suc [OF one_subst transforms_later [OF edits_subst.IH]])
next
  case (edits_delete xs ys n x)
  show ?case by (rule transforms_Suc [OF one_delete edits_delete.IH])
next
  case (edits_insert xs ys n y)
  show ?case
    by (rule transforms_Suc [OF one_insert transforms_later [OF edits_insert.IH]])
qed

text \<open>
  C9. For all strings \<open>a\<close> and \<open>b\<close>, \<open>levenshteinDistance a b\<close> is a natural number,
  \<open>a\<close> can be turned into \<open>b\<close> by that many single-character insertions, deletions and
  substitutions, by no fewer, it is 0 exactly when \<open>a = b\<close>, and it is symmetric.
\<close>

theorem levenshteinDistance_standard:
  "transforms (levenshteinDistance a b) a b
   \<and> (\<forall>n. transforms n a b \<longrightarrow> levenshteinDistance a b \<le> n)
   \<and> (levenshteinDistance a b = 0 \<longleftrightarrow> a = b)
   \<and> levenshteinDistance a b = levenshteinDistance b a"
  using edits_transforms [OF edits_lev, of a b] lev_le_transforms [of _ a b]
    lev_zero_iff [of a b] lev_sym [of a b]
  by (simp add: levenshteinDistance_lev)

theorem levenshteinDistance_standard_witness:
  "transforms 3 ''kitten'' ''sitting'' \<and> levenshteinDistance ''kitten'' ''sitting'' \<le> 3"
proof -
  have s1: "one_edit ''kitten'' ''sitten''" by (rule one_subst)
  have s2: "one_edit ''sitten'' ''sittin''" by (intro one_later one_subst)
  have s3: "one_edit ''sittin'' ''sitting''" by (intro one_later one_insert)
  have t: "transforms 3 ''kitten'' ''sitting''"
    using transforms_Suc [OF s1 transforms_Suc [OF s2 transforms_Suc [OF s3 transforms_0]]]
    by (simp add: eval_nat_numeral)
  with levenshteinDistance_standard [of "''kitten''" "''sitting''"] show ?thesis by blast
qed

section \<open>Deduplication keeps the first document of each id\<close>

lemma dedup_docs_ids: "set (map doc_id (dedup_docs seen ds)) = set (map doc_id ds) - seen"
  by (induction ds arbitrary: seen) auto

lemma dedup_docs_distinct: "distinct (map doc_id (dedup_docs seen ds))"
proof (induction ds arbitrary: seen)
  case Nil
  show ?case by simp
next
  case (Cons d ds)
  have "doc_id d \<notin> set (map doc_id (dedup_docs (insert (doc_id d) seen) ds))"
    unfolding dedup_docs_ids by simp
  with Cons show ?case by simp
qed

lemma dedup_docs_subseq: "subseq (dedup_docs seen ds) ds"
  by (induction ds arbitrary: seen) auto

lemma dedup_docs_find:
  "find (\<lambda>d. doc_id d = i) (dedup_docs seen ds) =
     (if i \<in> seen then None else find (\<lambda>d. doc_id d = i) ds)"
proof (induction ds arbitrary: seen)
  case Nil
  show ?case by simp
next
  case (Cons d ds)
  show ?case by (simp add: Cons.IH)
qed

lemma find_doc_member:
  assumes "distinct (map doc_id ds)" "d \<in> set ds"
  shows "find (\<lambda>x. doc_id x = doc_id d) ds = Some d"
  using assms by (induction ds) (auto simp: image_iff)

text \<open>
  C7. For every sequence of collected documents, the list held by the built index has one
  document per distinct id of the sequence, it is a subsequence of the collected sequence
  (the relative order is kept), looking an id up in it gives the first-encountered document
  of that id, and every document it holds is the first-encountered one of its id; so a later
  document that shares an id with an earlier one is never what a search result resolves to.
\<close>

theorem uniqueDocs_first_occurrence:
  "distinct (map doc_id (uniqueDocs docs))
   \<and> set (map doc_id (uniqueDocs docs)) = set (map doc_id docs)
   \<and> subseq (uniqueDocs docs) docs
   \<and> (\<forall>i. find_doc (uniqueDocs docs) i = find_doc docs i)
   \<and> (\<forall>d \<in> set (uniqueDocs docs). find_doc docs (doc_id d) = Some d)"
proof -
  have f: "find_doc (uniqueDocs docs) i = find_doc docs i" for i
    by (simp add: find_doc_def uniqueDocs_def dedup_docs_find)
  have "find_doc docs (doc_id d) = Some d" if "d \<in> set (uniqueDocs docs)" for d
    using find_doc_member [OF dedup_docs_distinct, of d "{}" docs] that f [of "doc_id d"]
    by (simp add: find_doc_def uniqueDocs_def)
  with f show ?thesis
    by (simp add: uniqueDocs_def dedup_docs_ids dedup_docs_distinct dedup_docs_subseq
        del: set_map)
qed

theorem uniqueDocs_first_occurrence_witness:
  "uniqueDocs [ex_doc ''s1'' ''full transcript'', ex_doc ''s2'' ''other'', ex_doc ''s1'' ''history line'']
     = [ex_doc ''s1'' ''full transcript'', ex_doc ''s2'' ''other'']
   \<and> ex_doc ''s1'' ''full transcript'' \<in> set (uniqueDocs [ex_doc ''s1'' ''full transcript'', ex_doc ''s2'' ''other'', ex_doc ''s1'' ''history line''])
   \<and> find_doc [ex_doc ''s1'' ''full transcript'', ex_doc ''s2'' ''other'', ex_doc ''s1'' ''history line''] ''s1''
       = Some (ex_doc ''s1'' ''full transcript'')"
  using uniqueDocs_first_occurrence
    [of "[ex_doc ''s1'' ''full transcript'', ex_doc ''s2'' ''other'', ex_doc ''s1'' ''history line'']"]
  by (simp add: uniqueDocs_def ex_doc_def find_doc_def)

section \<open>The per-message match predicate\<close>

lemma index_from_None_iff: "index_from w s k = None \<longleftrightarrow> \<not> sublist w s"
  by (induction s arbitrary: k) (auto simp: sublist_Cons_right)

lemma str_includes_sublist: "str_includes s w \<longleftrightarrow> sublist w s"
  by (simp add: str_includes_def indexOf_def index_from_None_iff)

lemma sublist_map_iff: "sublist w (map f text) \<longleftrightarrow> (\<exists>s. sublist s text \<and> map f s = w)"
proof
  assume "sublist w (map f text)"
  then obtain ps ss where "map f text = ps @ w @ ss" by (auto simp: sublist_def)
  then obtain us vs where uv: "text = us @ vs" "w @ ss = map f vs"
    by (auto simp: map_eq_append_conv)
  from uv(2) obtain s vs' where "vs = s @ vs'" "w = map f s"
    by (auto simp: append_eq_map_conv)
  with uv(1) have "sublist s text \<and> map f s = w" by (auto simp: sublist_def)
  then show "\<exists>s. sublist s text \<and> map f s = w" by blast
next
  assume "\<exists>s. sublist s text \<and> map f s = w"
  then obtain s ps ss where "text = ps @ s @ ss" "map f s = w" by (auto simp: sublist_def)
  then have "map f text = map f ps @ w @ map f ss" by simp
  then show "sublist w (map f text)" unfolding sublist_def by blast
qed

lemma lower_char_idem [simp]: "lower_char (lower_char c) = lower_char c"
  by (simp add: lower_char_def Let_def)

lemma toLowerCase_idem [simp]: "toLowerCase (toLowerCase s) = toLowerCase s"
  by (simp add: toLowerCase_def)

lemma split_re_unfold:
  "split_re s =
     (if dropWhile (\<lambda>c. \<not> is_sep c) s = [] then [takeWhile (\<lambda>c. \<not> is_sep c) s]
      else takeWhile (\<lambda>c. \<not> is_sep c) s #
           split_re (dropWhile is_sep (dropWhile (\<lambda>c. \<not> is_sep c) s)))"
  by (subst split_re.simps) (simp only: Let_def)

lemma split_re_chars: "w \<in> set (split_re s) \<Longrightarrow> set w \<subseteq> set s"
proof (induction s rule: split_re.induct)
  case (1 s)
  define r where "r = dropWhile (\<lambda>c. \<not> is_sep c) s"
  have tw: "set (takeWhile (\<lambda>c. \<not> is_sep c) s) \<subseteq> set s"
    using set_takeWhileD by fastforce
  show ?case
  proof (cases "r = []")
    case True
    with "1.prems" have "w = takeWhile (\<lambda>c. \<not> is_sep c) s"
      unfolding split_re_unfold [of s] r_def by (simp only: if_True set_simps empty_iff insert_iff) simp
    then show ?thesis using tw by simp
  next
    case False
    with "1.prems" have "w = takeWhile (\<lambda>c. \<not> is_sep c) s \<or> w \<in> set (split_re (dropWhile is_sep r))"
      unfolding split_re_unfold [of s] r_def by (simp only: if_False set_simps insert_iff)
    then show ?thesis
    proof
      assume "w = takeWhile (\<lambda>c. \<not> is_sep c) s"
      then show ?thesis using tw by simp
    next
      assume "w \<in> set (split_re (dropWhile is_sep r))"
      then have "set w \<subseteq> set (dropWhile is_sep r)"
        using "1.IH" [OF refl r_def False] by simp
      moreover have "set (dropWhile is_sep r) \<subseteq> set s"
        unfolding r_def by (meson set_dropWhileD subsetI)
      ultimately show ?thesis by simp
    qed
  qed
qed

lemma toLowerCase_fixed: "set w \<subseteq> set (toLowerCase s) \<Longrightarrow> toLowerCase w = w"
proof -
  assume a: "set w \<subseteq> set (toLowerCase s)"
  have "lower_char c = c" if "c \<in> set w" for c
  proof -
    from that a obtain d where "c = lower_char d" by (auto simp: toLowerCase_def)
    then show ?thesis by simp
  qed
  then show ?thesis by (simp add: toLowerCase_def map_idI)
qed

lemma tokenize_lower: "w \<in> set (tokenize q) \<Longrightarrow> toLowerCase w = w"
  using split_re_chars [of w "toLowerCase q"] toLowerCase_fixed [of w q]
  by (simp add: tokenize_def)

lemma of_char_lower_char:
  "(of_char (lower_char c) :: nat) = (if is_capital c then of_char c + 32 else of_char c)"
proof (cases "is_capital c")
  case True
  then have "(of_char c :: nat) + 32 < 256" by (auto simp: is_capital_def Let_def)
  then have "(of_char (char_of ((of_char c :: nat) + 32)) :: nat) = of_char c + 32"
    by simp
  with True show ?thesis by (simp add: lower_char_def is_capital_def Let_def)
next
  case False
  then show ?thesis by (auto simp: lower_char_def is_capital_def Let_def)
qed

lemma same_letter_lower: "same_letter c d \<longleftrightarrow> lower_char c = lower_char d"
proof -
  have "lower_char c = lower_char d \<longleftrightarrow>
      (of_char (lower_char c) :: nat) = of_char (lower_char d)"
    by simp
  also have "\<dots> \<longleftrightarrow> same_letter c d"
    unfolding of_char_lower_char same_letter_def
    by (auto simp: is_capital_def Let_def)
  finally show ?thesis by simp
qed

lemma list_all2_same_image:
  "list_all2 (\<lambda>a b. f a = f b) xs ys \<longleftrightarrow> map f xs = map f ys"
proof (induction xs arbitrary: ys)
  case Nil
  show ?case by auto
next
  case (Cons x xs)
  show ?case by (cases ys) (auto simp: Cons.IH)
qed

lemma list_all2_same_letter: "list_all2 same_letter s w \<longleftrightarrow> toLowerCase s = toLowerCase w"
proof -
  have e: "same_letter = (\<lambda>a b. lower_char a = lower_char b)"
    by (intro ext) (rule same_letter_lower)
  show ?thesis
    unfolding toLowerCase_def e by (rule list_all2_same_image)
qed

lemma ci_substring_includes:
  "toLowerCase w = w \<Longrightarrow> ci_substring w text \<longleftrightarrow> str_includes (toLowerCase text) w"
  unfolding ci_substring_def str_includes_sublist toLowerCase_def [of "text"] sublist_map_iff
  by (auto simp: list_ex_iff list_all2_same_letter toLowerCase_def)

text \<open>
  C4. With the query words the tokens of the query, a message matches if and only if there is
  at least one query word and either every query word is a case-insensitive substring of the
  message text, or every query word has a token of the message text whose length differs from
  it by at most 2 and whose edit distance from it is at most 2; with no query words no
  message matches. Case-insensitive is \<open>same_letter\<close>, unit by unit, for every text of
  code units below 256.
\<close>

theorem matchesMessage_semantics:
  "(matchesMessage (tokenize query) text \<longleftrightarrow>
      tokenize query \<noteq> []
      \<and> ((\<forall>w \<in> set (tokenize query). ci_substring w text)
         \<or> (\<forall>qw \<in> set (tokenize query). \<exists>mt \<in> set (tokenize text). close_to qw mt)))
   \<and> \<not> matchesMessage [] text"
proof -
  have ex: "list_all (\<lambda>w. str_includes (toLowerCase text) w) (tokenize query)
      \<longleftrightarrow> (\<forall>w \<in> set (tokenize query). ci_substring w text)"
    by (simp add: list_all_iff ci_substring_includes tokenize_lower)
  have fz: "list_all (\<lambda>qw. list_ex (\<lambda>mt.
        if \<bar>int (length mt) - int (length qw)\<bar> > 2 then False
        else levenshteinDistance mt qw \<le> 2) (tokenize text)) (tokenize query)
      \<longleftrightarrow> (\<forall>qw \<in> set (tokenize query). \<exists>mt \<in> set (tokenize text). close_to qw mt)"
  proof -
    have "(if \<bar>int (length mt) - int (length qw)\<bar> > 2 then False
           else levenshteinDistance mt qw \<le> 2) = close_to qw mt" for qw mt
      by (auto simp: close_to_def)
    then show ?thesis by (simp add: list_all_iff list_ex_iff)
  qed
  show ?thesis
    unfolding matchesMessage_def Let_def ex fz by auto
qed

theorem matchesMessage_semantics_witness:
  "tokenize ''JWT autentication'' = [''jwt'', ''autentication'']
   \<and> tokenize ''Use JWT for Authentication'' = [''use'', ''jwt'', ''for'', ''authentication'']
   \<and> \<not> str_includes (toLowerCase ''Use JWT for Authentication'') ''autentication''
   \<and> close_to ''jwt'' ''jwt'' \<and> close_to ''autentication'' ''authentication''
   \<and> matchesMessage (tokenize ''JWT autentication'') ''Use JWT for Authentication''
   \<and> tokenize [CHR 0xC4, CHR 0xD6, CHR 0xDC, CHR 0xA0, CHR ''x''] = [[CHR 0xE4, CHR 0xF6, CHR 0xFC]]
   \<and> ci_substring [CHR 0xE4, CHR 0xF6, CHR 0xFC] [CHR ''a'', CHR 0xE4, CHR 0xD6, CHR 0xFC]
   \<and> matchesMessage (tokenize [CHR 0xC4, CHR 0xD6, CHR 0xDC, CHR 0xA0, CHR ''x''])
         [CHR ''a'', CHR 0xE4, CHR 0xD6, CHR 0xFC]"
proof -
  have t: "tokenize ''JWT autentication'' = [''jwt'', ''autentication'']" by code_simp
  have tt: "tokenize ''Use JWT for Authentication'' = [''use'', ''jwt'', ''for'', ''authentication'']"
    by code_simp
  have c2: "\<not> str_includes (toLowerCase ''Use JWT for Authentication'') ''autentication''"
    by code_simp
  have k1: "close_to ''jwt'' ''jwt''" by code_simp
  have k2: "close_to ''autentication'' ''authentication''" by code_simp
  have "\<forall>qw \<in> set (tokenize ''JWT autentication'').
          \<exists>mt \<in> set (tokenize ''Use JWT for Authentication''). close_to qw mt"
    unfolding t tt using k1 k2 by simp
  then have m1: "matchesMessage (tokenize ''JWT autentication'') ''Use JWT for Authentication''"
    using matchesMessage_semantics [of "''JWT autentication''" "''Use JWT for Authentication''"] t
    by simp
  have u: "tokenize [CHR 0xC4, CHR 0xD6, CHR 0xDC, CHR 0xA0, CHR ''x''] = [[CHR 0xE4, CHR 0xF6, CHR 0xFC]]"
    by code_simp
  have c: "ci_substring [CHR 0xE4, CHR 0xF6, CHR 0xFC] [CHR ''a'', CHR 0xE4, CHR 0xD6, CHR 0xFC]"
    by code_simp
  have m2: "matchesMessage (tokenize [CHR 0xC4, CHR 0xD6, CHR 0xDC, CHR 0xA0, CHR ''x''])
         [CHR ''a'', CHR 0xE4, CHR 0xD6, CHR 0xFC]"
    using matchesMessage_semantics
      [of "[CHR 0xC4, CHR 0xD6, CHR 0xDC, CHR 0xA0, CHR ''x'']" "[CHR ''a'', CHR 0xE4, CHR 0xD6, CHR 0xFC]"]
      c
    unfolding u by simp
  from t tt c2 k1 k2 m1 u c m2 show ?thesis by simp
qed

section \<open>Merging the windows of all-matches mode\<close>

lemma merge_windows_from:
  "merged \<noteq> [] \<Longrightarrow> merge_windows merged wins = butlast merged @ merge_from (last merged) wins"
proof (induction wins arbitrary: merged)
  case Nil
  then show ?case by simp
next
  case (Cons win wins)
  show ?case
  proof (cases "win_start win \<le> win_end (last merged) + 1")
    case True
    then show ?thesis using Cons.prems
      by (simp add: Cons.IH)
  next
    case False
    then show ?thesis using Cons.prems
      by (simp add: Cons.IH butlast_append)
  qed
qed

lemma merge_windows_empty:
  "merge_windows [] wins = (case wins of [] \<Rightarrow> [] | win # wins' \<Rightarrow> merge_from win wins')"
  by (cases wins) (simp_all add: merge_windows_from)

lemma merge_from_hd: "win_start (hd (merge_from cur wins)) = win_start cur"
  by (induction wins arbitrary: cur) auto

lemma merge_from_ne: "merge_from cur wins \<noteq> []"
  by (induction wins arbitrary: cur) auto

lemma chained_snoc:
  "g \<noteq> [] \<Longrightarrow> chained n cw (g @ [j]) \<longleftrightarrow> chained n cw g \<and> joined n cw (last g) j"
  by (induction n cw g rule: chained.induct) auto

lemma separated_Cons:
  "ws \<noteq> [] \<Longrightarrow> separated (w # ws) \<longleftrightarrow> win_start (hd ws) > win_end w + 1 \<and> separated ws"
  by (cases ws) auto

lemma span_indices [simp]: "win_matchIndices (span n cw g) = g"
  by (simp add: span_def)

lemma merge_from_raw:
  assumes "sorted (g @ sel)" "g \<noteq> []" "chained n cw g"
  shows "concat (map win_matchIndices (merge_from (span n cw g) (rawWindows n cw sel))) = g @ sel
    \<and> list_all (window_ok n cw) (merge_from (span n cw g) (rawWindows n cw sel))
    \<and> separated (merge_from (span n cw g) (rawWindows n cw sel))"
  using assms
proof (induction sel arbitrary: g)
  case Nil
  then show ?case by (simp add: rawWindows_def window_ok_def span_def)
next
  case (Cons j sel)
  have raw: "rawWindows n cw (j # sel) = span n cw [j] # rawWindows n cw sel"
    by (simp add: rawWindows_def span_def)
  have le: "last g \<le> j"
    using Cons.prems(1,2) by (simp add: sorted_append)
  show ?case
  proof (cases "joined n cw (last g) j")
    case True
    have cur: "(span n cw g)\<lparr>win_end := max (win_end (span n cw g)) (win_end (span n cw [j])),
        win_matchIndices := win_matchIndices (span n cw g) @ win_matchIndices (span n cw [j])\<rparr>
        = span n cw (g @ [j])"
      using le Cons.prems(2) by (simp add: span_def)
    have "win_start (span n cw [j]) \<le> win_end (span n cw g) + 1"
      using True by (simp add: joined_def span_def)
    then have step: "merge_from (span n cw g) (rawWindows n cw (j # sel))
        = merge_from (span n cw (g @ [j])) (rawWindows n cw sel)"
      unfolding raw using cur by simp
    have "sorted ((g @ [j]) @ sel)" using Cons.prems(1) by simp
    moreover have "chained n cw (g @ [j])"
      using True Cons.prems(2,3) by (simp add: chained_snoc)
    ultimately show ?thesis
      using Cons.IH [of "g @ [j]"] unfolding step by simp
  next
    case False
    have "\<not> win_start (span n cw [j]) \<le> win_end (span n cw g) + 1"
      using False by (simp add: joined_def span_def)
    then have step: "merge_from (span n cw g) (rawWindows n cw (j # sel))
        = span n cw g # merge_from (span n cw [j]) (rawWindows n cw sel)"
      unfolding raw by simp
    have "sorted ([j] @ sel)" using Cons.prems(1) by (simp add: sorted_append)
    then have ih: "concat (map win_matchIndices (merge_from (span n cw [j]) (rawWindows n cw sel))) = [j] @ sel
        \<and> list_all (window_ok n cw) (merge_from (span n cw [j]) (rawWindows n cw sel))
        \<and> separated (merge_from (span n cw [j]) (rawWindows n cw sel))"
      by (intro Cons.IH) simp_all
    have gap: "win_start (hd (merge_from (span n cw [j]) (rawWindows n cw sel))) > win_end (span n cw g) + 1"
      using False unfolding merge_from_hd joined_def span_def by (simp del: max_less_iff_conj) linarith
    have ok: "window_ok n cw (span n cw g)"
      using Cons.prems(2,3) by (simp add: window_ok_def span_def)
    show ?thesis
      unfolding step using ih gap ok by (simp add: separated_Cons merge_from_ne)
  qed
qed

lemma merge_windows_raw:
  assumes "sorted sel"
  shows "concat (map win_matchIndices (merge_windows [] (rawWindows n cw sel))) = sel
    \<and> list_all (window_ok n cw) (merge_windows [] (rawWindows n cw sel))
    \<and> separated (merge_windows [] (rawWindows n cw sel))"
proof (cases sel)
  case Nil
  then show ?thesis by (simp add: rawWindows_def)
next
  case (Cons j sel')
  have raw: "rawWindows n cw (j # sel') = span n cw [j] # rawWindows n cw sel'"
    by (simp add: rawWindows_def span_def)
  have "sorted ([j] @ sel')" using assms Cons by simp
  from merge_from_raw [OF this, of n cw] show ?thesis
    unfolding Cons raw by (simp add: merge_windows_from)
qed

lemma sorted_allMatchIndices: "sorted (allMatchIndices queryWords allMessages)"
  unfolding allMatchIndices_def
  by (intro sorted_map [THEN iffD2]) (simp add: sorted_wrt_filter sorted_wrt_mono_rel [of _ "(\<le>)"])

lemma sorted_selectedMatches: "sorted xs \<Longrightarrow> sorted (selectedMatches k xs)"
  by (auto simp: selectedMatches_def sorted_wrt_take split: option.splits)

lemma logbook_read_allMatches:
  assumes "findParser parsers agent = Some parser"
    and "getSession parser sessionId = Some session"
    and "q \<noteq> []"
    and "allMatchIndices (tokenize q) (ses_messages session) \<noteq> []"
  shows "logbook_read parsers agent sessionId (Some q) contextWindow True maxMatches offset limit =
     OkResponse
       (AllWindows (length (ses_messages session))
          (length (allMatchIndices (tokenize q) (ses_messages session)))
          (length (selectedMatches maxMatches (allMatchIndices (tokenize q) (ses_messages session))))
          (map (window_output_of (ses_messages session))
             (mergedWindows (length (ses_messages session)) contextWindow maxMatches
                (allMatchIndices (tokenize q) (ses_messages session)))))"
  using assms by (simp add: logbook_read_def Let_def)

lemma window_output_of_fields:
  "wo_startIndex (window_output_of allMessages w) = win_start w
   \<and> wo_endIndex (window_output_of allMessages w) = win_end w
   \<and> wo_matchIndices (window_output_of allMessages w) = win_matchIndices w"
  by (simp add: window_output_of_def)

text \<open>
  C3. In all-matches mode the merged windows partition the selected match indices in order;
  each window runs from the clamped start of its first match to the clamped end of its last
  match, each of its matches is joined to the next (the next raw window starts at most one
  past the end of the previous one), and two consecutive windows are not joined (the later
  one starts more than one past the end of the earlier one). For 10 messages, matches at
  2, 3 and 7 and a context window of 1, the windows are [1, 4] with matches 2, 3 and [6, 8]
  with match 7. These merged windows are what the read handler answers: for a session that
  is found and a non-empty query with at least one matching message, the all-matches call
  of \<open>logbook_read\<close> returns, whatever the offset and the limit, the number of
  messages, the number of matches, the number of selected matches, and one output window for
  each merged window, in order, with the same start, end and matched indices; and for a
  session of 10 messages matching at 2, 3 and 7, called with a context window of 1, it
  returns the two windows [1, 4] with matches 2, 3 and [6, 8] with match 7.
\<close>

theorem allMatches_merge:
  "(let n = int (length allMessages);
        cw = (case contextWindow of Some c \<Rightarrow> int c | None \<Rightarrow> 0);
        indices = allMatchIndices queryWords allMessages;
        res = mergedWindows (length allMessages) contextWindow maxMatches indices
    in concat (map win_matchIndices res) = selectedMatches maxMatches indices
       \<and> list_all (window_ok n cw) res
       \<and> separated res)
   \<and> mergedWindows 10 (Some 1) None [2, 3, 7] =
       [\<lparr>win_start = 1, win_end = 4, win_matchIndices = [2, 3]\<rparr>,
        \<lparr>win_start = 6, win_end = 8, win_matchIndices = [7]\<rparr>]
   \<and> (\<forall>parser session q.
         findParser parsers agent = Some parser \<and> getSession parser sessionId = Some session
         \<and> q \<noteq> [] \<and> allMatchIndices (tokenize q) (ses_messages session) \<noteq> [] \<longrightarrow>
         logbook_read parsers agent sessionId (Some q) contextWindow True maxMatches offset limit =
           OkResponse
             (AllWindows (length (ses_messages session))
                (length (allMatchIndices (tokenize q) (ses_messages session)))
                (length (selectedMatches maxMatches
                           (allMatchIndices (tokenize q) (ses_messages session))))
                (map (window_output_of (ses_messages session))
                   (mergedWindows (length (ses_messages session)) contextWindow maxMatches
                      (allMatchIndices (tokenize q) (ses_messages session))))))
   \<and> (wo_startIndex (window_output_of allMessages w) = win_start w
        \<and> wo_endIndex (window_output_of allMessages w) = win_end w
        \<and> wo_matchIndices (window_output_of allMessages w) = win_matchIndices w)
   \<and> (\<forall>parser session q.
         findParser parsers agent = Some parser \<and> getSession parser sessionId = Some session
         \<and> q \<noteq> [] \<and> length (ses_messages session) = 10
         \<and> allMatchIndices (tokenize q) (ses_messages session) = [2, 3, 7] \<longrightarrow>
         (\<exists>ws. logbook_read parsers agent sessionId (Some q) (Some 1) True None offset limit =
                 OkResponse (AllWindows 10 3 3 ws)
               \<and> map (\<lambda>w. (wo_startIndex w, wo_endIndex w, wo_matchIndices w)) ws =
                   [(1, 4, [2, 3]), (6, 8, [7])]))"
proof -
  have "sorted (selectedMatches maxMatches (allMatchIndices queryWords allMessages))"
    by (intro sorted_selectedMatches sorted_allMatchIndices)
  from merge_windows_raw [OF this]
  have general: "let n = int (length allMessages);
        cw = (case contextWindow of Some c \<Rightarrow> int c | None \<Rightarrow> 0);
        indices = allMatchIndices queryWords allMessages;
        res = mergedWindows (length allMessages) contextWindow maxMatches indices
    in concat (map win_matchIndices res) = selectedMatches maxMatches indices
       \<and> list_all (window_ok n cw) res
       \<and> separated res"
    by (simp add: Let_def mergedWindows_def)
  have ten: "mergedWindows 10 (Some 1) None [2, 3, 7] =
       [\<lparr>win_start = 1, win_end = 4, win_matchIndices = [2, 3]\<rparr>,
        \<lparr>win_start = 6, win_end = 8, win_matchIndices = [7]\<rparr>]"
    by (simp add: mergedWindows_def selectedMatches_def rawWindows_def)
  have handler: "\<forall>parser session q.
         findParser parsers agent = Some parser \<and> getSession parser sessionId = Some session
         \<and> q \<noteq> [] \<and> allMatchIndices (tokenize q) (ses_messages session) \<noteq> [] \<longrightarrow>
         logbook_read parsers agent sessionId (Some q) contextWindow True maxMatches offset limit =
           OkResponse
             (AllWindows (length (ses_messages session))
                (length (allMatchIndices (tokenize q) (ses_messages session)))
                (length (selectedMatches maxMatches
                           (allMatchIndices (tokenize q) (ses_messages session))))
                (map (window_output_of (ses_messages session))
                   (mergedWindows (length (ses_messages session)) contextWindow maxMatches
                      (allMatchIndices (tokenize q) (ses_messages session)))))"
    using logbook_read_allMatches by blast
  have inst: "\<exists>ws. logbook_read parsers agent sessionId (Some q) (Some 1) True None offset limit =
                 OkResponse (AllWindows 10 3 3 ws)
               \<and> map (\<lambda>w. (wo_startIndex w, wo_endIndex w, wo_matchIndices w)) ws =
                   [(1, 4, [2, 3]), (6, 8, [7])]"
    if h: "findParser parsers agent = Some parser \<and> getSession parser sessionId = Some session
         \<and> q \<noteq> [] \<and> length (ses_messages session) = 10
         \<and> allMatchIndices (tokenize q) (ses_messages session) = [2, 3, 7]"
    for parser session q
  proof -
    have ne: "allMatchIndices (tokenize q) (ses_messages session) \<noteq> []" using h by simp
    have "logbook_read parsers agent sessionId (Some q) (Some 1) True None offset limit =
        OkResponse (AllWindows 10 3 3
          (map (window_output_of (ses_messages session)) (mergedWindows 10 (Some 1) None [2, 3, 7])))"
      using logbook_read_allMatches [of parsers agent parser sessionId session q "Some 1" None offset limit]
        h ne
      by (simp add: selectedMatches_def)
    moreover have "map (\<lambda>w. (wo_startIndex w, wo_endIndex w, wo_matchIndices w))
        (map (window_output_of (ses_messages session)) (mergedWindows 10 (Some 1) None [2, 3, 7]))
        = [(1, 4, [2, 3]), (6, 8, [7])]"
      unfolding ten by (simp add: window_output_of_fields)
    ultimately show ?thesis by (intro exI conjI)
  qed
  from general ten handler window_output_of_fields [of allMessages w] inst
  show ?thesis by blast
qed

theorem allMatches_merge_witness:
  "findParser [ex_parser] Claude = Some ex_parser
   \<and> getSession ex_parser ''session-1'' = Some ex_session
   \<and> length (ses_messages ex_session) = 10
   \<and> allMatchIndices (tokenize ''needle'') (ses_messages ex_session) = [2, 3, 7]
   \<and> (\<exists>ws. logbook_read [ex_parser] Claude ''session-1'' (Some ''needle'') (Some 1) True None None None
              = OkResponse (AllWindows 10 3 3 ws)
            \<and> map (\<lambda>w. (wo_startIndex w, wo_endIndex w, wo_matchIndices w)) ws =
                [(1, 4, [2, 3]), (6, 8, [7])])
   \<and> mergedWindows (length ex_messages) (Some 1) None (allMatchIndices (tokenize ''needle'') ex_messages)
       = [\<lparr>win_start = 1, win_end = 4, win_matchIndices = [2, 3]\<rparr>,
          \<lparr>win_start = 6, win_end = 8, win_matchIndices = [7]\<rparr>]
   \<and> list_all (window_ok 10 1)
        (mergedWindows (length ex_messages) (Some 1) None (allMatchIndices (tokenize ''needle'') ex_messages))
   \<and> separated
        (mergedWindows (length ex_messages) (Some 1) None (allMatchIndices (tokenize ''needle'') ex_messages))"
proof -
  have p: "findParser [ex_parser] Claude = Some ex_parser"
    by (simp add: findParser_def ex_parser_def)
  have g: "getSession ex_parser ''session-1'' = Some ex_session"
    by (simp add: ex_parser_def)
  have m: "ses_messages ex_session = ex_messages" by (simp add: ex_session_def)
  have len: "length ex_messages = 10" by (simp add: ex_messages_def)
  have idx: "allMatchIndices (tokenize ''needle'') ex_messages = [2, 3, 7]"
    unfolding ex_messages_def ex_message_def by code_simp
  have ne: "''needle'' \<noteq> []" by simp
  note inst = allMatches_merge [where allMessages = ex_messages and contextWindow = "Some 1"
      and queryWords = "tokenize ''needle''" and maxMatches = None and parsers = "[ex_parser]"
      and agent = Claude and sessionId = "''session-1''" and offset = None and limit = None]
  have h: "\<exists>ws. logbook_read [ex_parser] Claude ''session-1'' (Some ''needle'') (Some 1) True None None None
              = OkResponse (AllWindows 10 3 3 ws)
            \<and> map (\<lambda>w. (wo_startIndex w, wo_endIndex w, wo_matchIndices w)) ws =
                [(1, 4, [2, 3]), (6, 8, [7])]"
    using inst p g ne len idx unfolding m [symmetric] by blast
  have w: "list_all (window_ok 10 1)
        (mergedWindows (length ex_messages) (Some 1) None (allMatchIndices (tokenize ''needle'') ex_messages))
     \<and> separated
        (mergedWindows (length ex_messages) (Some 1) None (allMatchIndices (tokenize ''needle'') ex_messages))"
    using inst by (simp add: Let_def len)
  have mw: "mergedWindows (length ex_messages) (Some 1) None (allMatchIndices (tokenize ''needle'') ex_messages)
       = [\<lparr>win_start = 1, win_end = 4, win_matchIndices = [2, 3]\<rparr>,
          \<lparr>win_start = 6, win_end = 8, win_matchIndices = [7]\<rparr>]"
    using inst unfolding idx len by simp
  from p g m len idx h mw w show ?thesis by simp
qed

section \<open>Lookup failures and empty matches of the read handler\<close>

lemma findIndex_none_iff: "findIndex P xs = - 1 \<longleftrightarrow> (\<forall>x \<in> set xs. \<not> P x)"
proof -
  have "find (\<lambda>i. P (xs ! i)) [0..<length xs] = None \<longleftrightarrow> (\<forall>x \<in> set xs. \<not> P x)"
    by (auto simp: find_None_iff all_set_conv_all_nth)
  then show ?thesis
    by (auto simp: findIndex_def split: option.splits)
qed

lemma allMatchIndices_empty_iff:
  "allMatchIndices queryWords allMessages = [] \<longleftrightarrow>
     (\<forall>m \<in> set allMessages. \<not> matchesMessage queryWords (msg_content m))"
  by (auto simp: allMatchIndices_def filter_empty_conv all_set_conv_all_nth)

lemma single_match_queryNotFound:
  "queryNotFound (single_match queryWords True contextWindow offset limit allMessages) \<longleftrightarrow>
     (\<forall>m \<in> set allMessages. \<not> matchesMessage queryWords (msg_content m))"
proof (cases "findIndex (\<lambda>m. matchesMessage queryWords (msg_content m)) allMessages = - 1")
  case True
  then have "queryNotFound (single_match queryWords True contextWindow offset limit allMessages)"
    by (simp add: single_match_def queryNotFound_def Let_def split: option.splits)
  with True show ?thesis by (simp add: findIndex_none_iff)
next
  case False
  define mi where "mi = findIndex (\<lambda>m. matchesMessage queryWords (msg_content m)) allMessages"
  have "0 \<le> mi" using False unfolding mi_def findIndex_def by (simp split: option.splits)
  then have "mi - max 0 (mi - int cw) \<noteq> - 1" for cw by linarith
  with False have "\<not> queryNotFound (single_match queryWords True contextWindow offset limit allMessages)"
    unfolding mi_def [symmetric]
    by (simp add: single_match_def queryNotFound_def Let_def mi_def [symmetric] split: option.splits)
  with False show ?thesis by (simp add: findIndex_none_iff)
qed

text \<open>
  C8. A request that names an agent with no registered parser, or a session id for which the
  parser answers nothing, gets an error response. A request with a non-empty query on a
  session that exists gets a normal response whose \<open>queryNotFound\<close> flag is set exactly
  when no message matches; in all-matches mode that response reports zero matches.
\<close>

theorem logbook_read_lookup_failures:
  "(findParser parsers agent = None \<longrightarrow>
      (\<exists>msg. logbook_read parsers agent sessionId query contextWindow allMatches maxMatches offset limit
               = ErrorResponse msg))
   \<and> (\<forall>parser. findParser parsers agent = Some parser \<and> getSession parser sessionId = None \<longrightarrow>
      (\<exists>msg. logbook_read parsers agent sessionId query contextWindow allMatches maxMatches offset limit
               = ErrorResponse msg))
   \<and> (\<forall>parser session q. findParser parsers agent = Some parser
          \<and> getSession parser sessionId = Some session \<and> query = Some q \<and> q \<noteq> [] \<longrightarrow>
      (\<exists>out. logbook_read parsers agent sessionId query contextWindow allMatches maxMatches offset limit
               = OkResponse out
          \<and> (queryNotFound out \<longleftrightarrow>
               (\<forall>m \<in> set (ses_messages session). \<not> matchesMessage (tokenize q) (msg_content m)))
          \<and> (queryNotFound out \<and> allMatches \<longrightarrow> out = AllNotFound (length (ses_messages session)))))"
proof (intro conjI allI impI)
  assume "findParser parsers agent = None"
  then show "\<exists>msg. logbook_read parsers agent sessionId query contextWindow allMatches maxMatches offset limit
               = ErrorResponse msg"
    by (simp add: logbook_read_def)
next
  fix parser
  assume "findParser parsers agent = Some parser \<and> getSession parser sessionId = None"
  then show "\<exists>msg. logbook_read parsers agent sessionId query contextWindow allMatches maxMatches offset limit
               = ErrorResponse msg"
    by (simp add: logbook_read_def)
next
  fix parser session q
  assume a: "findParser parsers agent = Some parser
          \<and> getSession parser sessionId = Some session \<and> query = Some q \<and> q \<noteq> []"
  show "\<exists>out. logbook_read parsers agent sessionId query contextWindow allMatches maxMatches offset limit
               = OkResponse out
          \<and> (queryNotFound out \<longleftrightarrow>
               (\<forall>m \<in> set (ses_messages session). \<not> matchesMessage (tokenize q) (msg_content m)))
          \<and> (queryNotFound out \<and> allMatches \<longrightarrow> out = AllNotFound (length (ses_messages session)))"
  proof (cases allMatches)
    case True
    show ?thesis
    proof (cases "allMatchIndices (tokenize q) (ses_messages session) = []")
      case e: True
      then have "logbook_read parsers agent sessionId query contextWindow allMatches maxMatches offset limit
          = OkResponse (AllNotFound (length (ses_messages session)))"
        using a True by (simp add: logbook_read_def Let_def)
      then show ?thesis using e by (simp add: queryNotFound_def allMatchIndices_empty_iff)
    next
      case ne: False
      then have "\<exists>t k ws. logbook_read parsers agent sessionId query contextWindow allMatches maxMatches offset limit
          = OkResponse (AllWindows (length (ses_messages session)) t k ws)"
        using a True by (simp add: logbook_read_def Let_def)
      then show ?thesis using ne by (auto simp: queryNotFound_def allMatchIndices_empty_iff)
    qed
  next
    case False
    then have "logbook_read parsers agent sessionId query contextWindow allMatches maxMatches offset limit
        = OkResponse (single_match (tokenize q) True contextWindow offset limit (ses_messages session))"
      using a by (simp add: logbook_read_def Let_def)
    then show ?thesis using False by (simp add: single_match_queryNotFound)
  qed
qed

theorem logbook_read_lookup_failures_witness:
  "findParser [ex_parser] Gemini = None
   \<and> (\<exists>msg. logbook_read [ex_parser] Gemini ''session-1'' None None False None None None
          = ErrorResponse msg)
   \<and> findParser [ex_parser] Claude = Some ex_parser
   \<and> getSession ex_parser ''nonexistent'' = None
   \<and> (\<exists>msg. logbook_read [ex_parser] Claude ''nonexistent'' None None False None None None
          = ErrorResponse msg)
   \<and> getSession ex_parser ''session-1'' = Some ex_session
   \<and> (\<exists>out. logbook_read [ex_parser] Claude ''session-1'' (Some ''xyznonexistent123'') (Some 1)
            True None None None = OkResponse out \<and> queryNotFound out \<and> out = AllNotFound 10)
   \<and> (\<exists>out. logbook_read [ex_parser] Claude ''session-1'' (Some ''needle'') (Some 1)
            False None None None = OkResponse out \<and> \<not> queryNotFound out)"
proof -
  have p1: "findParser [ex_parser] Gemini = None"
    by (simp add: findParser_def ex_parser_def)
  have p2: "findParser [ex_parser] Claude = Some ex_parser"
    by (simp add: findParser_def ex_parser_def)
  have g1: "getSession ex_parser ''nonexistent'' = None"
    by (simp add: ex_parser_def)
  have g2: "getSession ex_parser ''session-1'' = Some ex_session"
    by (simp add: ex_parser_def)
  have len: "length (ses_messages ex_session) = 10"
    by (simp add: ex_session_def ex_messages_def)
  have none: "\<forall>m \<in> set (ses_messages ex_session).
      \<not> matchesMessage (tokenize ''xyznonexistent123'') (msg_content m)"
    unfolding ex_session_def ex_messages_def ex_message_def by code_simp
  have some: "\<not> (\<forall>m \<in> set (ses_messages ex_session).
      \<not> matchesMessage (tokenize ''needle'') (msg_content m))"
    unfolding ex_session_def ex_messages_def ex_message_def by code_simp
  have e1: "\<exists>msg. logbook_read [ex_parser] Gemini ''session-1'' None None False None None None
          = ErrorResponse msg"
    using logbook_read_lookup_failures
      [of "[ex_parser]" Gemini "''session-1''" None None False None None None] p1
    by blast
  have e2: "\<exists>msg. logbook_read [ex_parser] Claude ''nonexistent'' None None False None None None
          = ErrorResponse msg"
    using logbook_read_lookup_failures
      [of "[ex_parser]" Claude "''nonexistent''" None None False None None None] p2 g1
    by blast
  have o1: "\<exists>out. logbook_read [ex_parser] Claude ''session-1'' (Some ''xyznonexistent123'') (Some 1)
            True None None None = OkResponse out \<and> queryNotFound out \<and> out = AllNotFound 10"
    using logbook_read_lookup_failures
      [of "[ex_parser]" Claude "''session-1''" "Some ''xyznonexistent123''" "Some 1" True None None None]
      p2 g2 none len
    by (metis list.distinct(1))
  have o2: "\<exists>out. logbook_read [ex_parser] Claude ''session-1'' (Some ''needle'') (Some 1)
            False None None None = OkResponse out \<and> \<not> queryNotFound out"
    using logbook_read_lookup_failures
      [of "[ex_parser]" Claude "''session-1''" "Some ''needle''" "Some 1" False None None None]
      p2 g2 some
    by (metis list.distinct(1))
  from p1 p2 g1 g2 e1 e2 o1 o2 show ?thesis by blast
qed

section \<open>The length penalty\<close>

lemma lengthPenalty_nonneg: "0 \<le> lengthPenalty len"
  by (simp add: lengthPenalty_def)

lemma lengthPenalty_mono: "l1 \<le> l2 \<Longrightarrow> lengthPenalty l1 \<le> lengthPenalty l2"
  by (auto simp: lengthPenalty_def divide_right_mono)

lemma res_score_map_hit:
  "res_score (map_hit docs query maxSnippets r) =
     hit_score r / (1 + lengthPenalty (textLen docs r) * 0.5)"
  by (simp add: map_hit_def Let_def)

lemma search_results_mapped:
  assumes "res \<in> set (search options docs results)"
  shows "\<exists>r \<in> set (post_filter options docs results).
           res = map_hit docs (opt_query options)
                   (case opt_maxSnippets options of Some k \<Rightarrow> k | None \<Rightarrow> 3) r"
proof -
  from assms have "res \<in> set (map (map_hit docs (opt_query options)
        (case opt_maxSnippets options of Some k \<Rightarrow> k | None \<Rightarrow> 3))
        (post_filter options docs results))"
    unfolding search_def Let_def using in_set_takeD by fastforce
  then show ?thesis by auto
qed

lemma mset_take_subset: "mset (take n xs) \<subseteq># mset xs"
proof -
  have "mset xs = mset (take n xs) + mset (drop n xs)"
    by (metis append_take_drop_id mset_append)
  then show ?thesis by simp
qed

lemma search_mset:
  "mset (search options docs results) \<subseteq>#
     image_mset (map_hit docs (opt_query options)
                   (case opt_maxSnippets options of Some k \<Rightarrow> k | None \<Rightarrow> 3))
       (mset (post_filter options docs results))"
  unfolding search_def Let_def
  using mset_take_subset [of "case opt_limit options of Some l \<Rightarrow> l | None \<Rightarrow> 20"
      "sort_key (\<lambda>a. - res_score a) (map (map_hit docs (opt_query options)
         (case opt_maxSnippets options of Some k \<Rightarrow> k | None \<Rightarrow> 3))
         (post_filter options docs results))"]
  by simp

lemma search_length:
  "length (search options docs results) =
     min (case opt_limit options of Some l \<Rightarrow> l | None \<Rightarrow> 20)
         (length (post_filter options docs results))"
  by (simp add: search_def Let_def min.commute)

lemma search_all:
  assumes "length (post_filter options docs results)
             \<le> (case opt_limit options of Some l \<Rightarrow> l | None \<Rightarrow> 20)"
  shows "mset (search options docs results) =
     image_mset (map_hit docs (opt_query options)
                   (case opt_maxSnippets options of Some k \<Rightarrow> k | None \<Rightarrow> 3))
       (mset (post_filter options docs results))"
  using assms by (simp add: search_def Let_def)

lemma search_sorted: "sorted (map (\<lambda>a. - res_score a) (search options docs results))"
proof -
  have "sorted (take n (map f (sort_key f xs)))" for n and f :: "search_result \<Rightarrow> real" and xs
    by (rule sorted_wrt_take) (rule sorted_sort_key)
  then show ?thesis by (simp add: search_def Let_def take_map)
qed

text \<open>
  C1. The results of a search are images of the hits that survive the filters, each hit at
  most once, in descending order of score, cut at \<open>limit\<close>: when the surviving hits fit
  the limit, every one of them is returned. The score of the result of a hit with raw score
  \<open>r\<close> whose resolved text has length \<open>L\<close> is \<open>r / (1 + 0.5 * log2 (L / 500))\<close> when
  \<open>L > 500\<close> and \<open>r\<close> otherwise. So of two hits with the same raw score the one with the
  shorter text gets a final score at least as large; here the raw score is taken to be at
  least 0, which is the range of the scores the full-text engine returns and not a further
  case of the claim.
\<close>

theorem search_length_penalty:
  "(\<forall>res \<in> set (search options docs results).
      \<exists>r \<in> set (post_filter options docs results).
        res = map_hit docs (opt_query options)
                (case opt_maxSnippets options of Some k \<Rightarrow> k | None \<Rightarrow> 3) r)
   \<and> mset (search options docs results) \<subseteq>#
       image_mset (map_hit docs (opt_query options)
                     (case opt_maxSnippets options of Some k \<Rightarrow> k | None \<Rightarrow> 3))
         (mset (post_filter options docs results))
   \<and> length (search options docs results) =
       min (case opt_limit options of Some l \<Rightarrow> l | None \<Rightarrow> 20)
           (length (post_filter options docs results))
   \<and> (length (post_filter options docs results)
          \<le> (case opt_limit options of Some l \<Rightarrow> l | None \<Rightarrow> 20) \<longrightarrow>
        mset (search options docs results) =
          image_mset (map_hit docs (opt_query options)
                        (case opt_maxSnippets options of Some k \<Rightarrow> k | None \<Rightarrow> 3))
            (mset (post_filter options docs results)))
   \<and> sorted (map (\<lambda>a. - res_score a) (search options docs results))
   \<and> res_score (map_hit docs query maxSnippets r) =
       (if textLen docs r > 500
        then hit_score r / (1 + 0.5 * log 2 (real (textLen docs r) / 500))
        else hit_score r)
   \<and> (0 \<le> hit_score r1 \<and> hit_score r1 = hit_score r2 \<and> textLen docs r1 \<le> textLen docs r2 \<longrightarrow>
        res_score (map_hit docs query maxSnippets r2) \<le> res_score (map_hit docs query maxSnippets r1))"
proof (intro conjI impI ballI)
  fix res assume "res \<in> set (search options docs results)"
  then show "\<exists>r \<in> set (post_filter options docs results).
        res = map_hit docs (opt_query options)
                (case opt_maxSnippets options of Some k \<Rightarrow> k | None \<Rightarrow> 3) r"
    by (rule search_results_mapped)
next
  show "mset (search options docs results) \<subseteq>#
       image_mset (map_hit docs (opt_query options)
                     (case opt_maxSnippets options of Some k \<Rightarrow> k | None \<Rightarrow> 3))
         (mset (post_filter options docs results))"
    by (rule search_mset)
  show "length (search options docs results) =
       min (case opt_limit options of Some l \<Rightarrow> l | None \<Rightarrow> 20)
           (length (post_filter options docs results))"
    by (rule search_length)
  show "sorted (map (\<lambda>a. - res_score a) (search options docs results))"
    by (rule search_sorted)
next
  assume "length (post_filter options docs results)
          \<le> (case opt_limit options of Some l \<Rightarrow> l | None \<Rightarrow> 20)"
  then show "mset (search options docs results) =
          image_mset (map_hit docs (opt_query options)
                        (case opt_maxSnippets options of Some k \<Rightarrow> k | None \<Rightarrow> 3))
            (mset (post_filter options docs results))"
    by (rule search_all)
next
  show "res_score (map_hit docs query maxSnippets r) =
       (if textLen docs r > 500
        then hit_score r / (1 + 0.5 * log 2 (real (textLen docs r) / 500))
        else hit_score r)"
    by (simp add: res_score_map_hit lengthPenalty_def)
next
  assume a: "0 \<le> hit_score r1 \<and> hit_score r1 = hit_score r2 \<and> textLen docs r1 \<le> textLen docs r2"
  have "1 + lengthPenalty (textLen docs r1) * 0.5 \<le> 1 + lengthPenalty (textLen docs r2) * 0.5"
    using lengthPenalty_mono a by simp
  moreover have "0 < 1 + lengthPenalty (textLen docs r1) * 0.5"
    using lengthPenalty_nonneg [of "textLen docs r1"] by simp
  ultimately have "hit_score r2 / (1 + lengthPenalty (textLen docs r2) * 0.5)
      \<le> hit_score r1 / (1 + lengthPenalty (textLen docs r1) * 0.5)"
    using a by (simp add: frac_le)
  then show "res_score (map_hit docs query maxSnippets r2) \<le> res_score (map_hit docs query maxSnippets r1)"
    by (simp add: res_score_map_hit)
qed

theorem search_length_penalty_witness:
  "post_filter (ex_options ''xx'' None None) ex_docs [ex_hit ''long'' 7 None, ex_hit ''short'' 7 None]
     = [ex_hit ''long'' 7 None, ex_hit ''short'' 7 None]
   \<and> textLen ex_docs (ex_hit ''short'' 7 None) = 400
   \<and> textLen ex_docs (ex_hit ''long'' 7 None) = 4000
   \<and> length (search (ex_options ''xx'' None None) ex_docs
               [ex_hit ''long'' 7 None, ex_hit ''short'' 7 None]) = 2
   \<and> image_mset res_score
        (mset (search (ex_options ''xx'' None None) ex_docs
                 [ex_hit ''long'' 7 None, ex_hit ''short'' 7 None]))
       = {#14 / 5, 7#}
   \<and> map res_score (search (ex_options ''xx'' None None) ex_docs
                        [ex_hit ''long'' 7 None, ex_hit ''short'' 7 None])
       = [7, 14 / 5]"
proof -
  let ?o = "ex_options ''xx'' None None"
  let ?hs = "[ex_hit ''long'' 7 None, ex_hit ''short'' 7 None]"
  have pf: "post_filter ?o ex_docs ?hs = ?hs"
    by (simp add: post_filter_def minMessages_filter_def project_filter_def type_filter_def
        date_filter_def ex_options_def)
  have l1: "textLen ex_docs (ex_hit ''short'' 7 None) = 400"
    by (simp add: textLen_def find_doc_def ex_doc_def ex_hit_def ex_docs_def)
  have l2: "textLen ex_docs (ex_hit ''long'' 7 None) = 4000"
    by (simp add: textLen_def find_doc_def ex_doc_def ex_hit_def ex_docs_def)
  have lg: "log 2 8 = 3"
    using log_nat_power [of 2 2 3] by simp
  have q: "opt_query ?o = ''xx''" "opt_maxSnippets ?o = None" "opt_limit ?o = None"
    by (simp_all add: ex_options_def)
  have hs: "hit_score (ex_hit ''short'' 7 None) = 7" "hit_score (ex_hit ''long'' 7 None) = 7"
    by (simp_all add: ex_hit_def)
  note inst = search_length_penalty [of ?o ex_docs ?hs "''xx''" 3]
  have s1: "res_score (map_hit ex_docs ''xx'' 3 (ex_hit ''short'' 7 None)) = 7"
    using inst [of "ex_hit ''short'' 7 None"] unfolding l1 hs by simp
  have s2: "res_score (map_hit ex_docs ''xx'' 3 (ex_hit ''long'' 7 None)) = 14 / 5"
    using inst [of "ex_hit ''long'' 7 None"] unfolding l2 hs by (simp add: lg)
  have len: "length (search ?o ex_docs ?hs) = 2"
    using inst unfolding pf q by simp
  have ms: "mset (search ?o ex_docs ?hs) =
      {#map_hit ex_docs ''xx'' 3 (ex_hit ''long'' 7 None),
        map_hit ex_docs ''xx'' 3 (ex_hit ''short'' 7 None)#}"
    using inst unfolding pf q by simp
  have im: "image_mset res_score (mset (search ?o ex_docs ?hs)) = {#14 / 5, 7#}"
    unfolding ms by (simp add: s1 s2)
  have srt: "search ?o ex_docs ?hs =
      [map_hit ex_docs ''xx'' 3 (ex_hit ''short'' 7 None),
       map_hit ex_docs ''xx'' 3 (ex_hit ''long'' 7 None)]"
    unfolding search_def Let_def pf q by (simp add: s1 s2)
  have "map res_score (search ?o ex_docs ?hs) = [7, 14 / 5]"
    unfolding srt by (simp add: s1 s2)
  with pf l1 l2 len im show ?thesis by simp
qed

section \<open>The date filter\<close>

lemma date_keep_inclusive:
  assumes "hit_timestamp r = Some ts" "ts \<noteq> 0" "from \<noteq> Some 0" "to \<noteq> Some 0"
  shows "date_keep from to r \<longleftrightarrow>
     (case from of Some f \<Rightarrow> f \<le> ts | None \<Rightarrow> True) \<and> (case to of Some t \<Rightarrow> ts \<le> t | None \<Rightarrow> True)"
  using assms by (auto simp: date_keep_def split: option.splits)

lemma date_keep_no_timestamp: "hit_timestamp r = None \<Longrightarrow> date_keep from to r"
  by (simp add: date_keep_def)

text \<open>
  C6. The date filter at a timestamp of 0 and at a lower bound of 0: a hit with the timestamp
  0 is kept under a lower bound of 1000, and a hit with the timestamp -5 is kept under a lower
  bound of 0, although neither timestamp is at or after the bound.
\<close>

theorem date_filter_epoch_timestamp:
  "date_filter (ex_options ''authentication'' (Some 1000) None) [ex_hit ''d1'' 1 (Some 0)]
     = [ex_hit ''d1'' 1 (Some 0)]
   \<and> date_filter (ex_options ''authentication'' (Some 0) None) [ex_hit ''d1'' 1 (Some (- 5))]
     = [ex_hit ''d1'' 1 (Some (- 5))]"
  by (simp add: date_filter_def date_keep_def ex_options_def ex_hit_def)

theorem date_filter_epoch_timestamp_witness:
  "length (date_filter (ex_options ''authentication'' (Some 1000) None) [ex_hit ''d1'' 1 (Some 0)]) = 1"
  using date_filter_epoch_timestamp by simp

section \<open>Snippet centres are kept apart\<close>

lemma select_positions_spaced:
  assumes "sorted_wrt (\<lambda>a b. a + d \<le> b) sel"
    and "lastSelected = (if sel = [] then None else Some (last sel))"
  shows "sorted_wrt (\<lambda>a b. a + d \<le> b) (select_positions d maxSnippets ps lastSelected sel)"
  using assms
proof (induction ps arbitrary: lastSelected sel)
  case Nil
  then show ?case by simp
next
  case (Cons pos ps)
  show ?case
  proof (cases "case lastSelected of None \<Rightarrow> True | Some l \<Rightarrow> int pos - int l \<ge> int d")
    case False
    then show ?thesis using Cons by simp
  next
    case True
    have far: "\<forall>x \<in> set sel. x + d \<le> pos"
    proof
      fix x assume x: "x \<in> set sel"
      then have ne: "sel \<noteq> []" by auto
      with True Cons.prems(2) have l: "last sel + d \<le> pos" by simp
      have "x \<le> last sel"
      proof (cases "x = last sel")
        case True
        then show ?thesis by simp
      next
        case False
        with x ne have "x \<in> set (butlast sel)"
          by (metis append_butlast_last_id in_set_conv_decomp_first set_ConsD
              append_Nil2 in_set_conv_decomp rotate1.simps(2) set_rotate1)
        moreover have "sorted_wrt (\<lambda>a b. a + d \<le> b) (butlast sel @ [last sel])"
          using Cons.prems(1) ne by simp
        ultimately have "x + d \<le> last sel"
          unfolding sorted_wrt_append by simp
        then show ?thesis by simp
      qed
      with l show "x + d \<le> pos" by simp
    qed
    then have sp: "sorted_wrt (\<lambda>a b. a + d \<le> b) (sel @ [pos])"
      using Cons.prems(1) by (simp add: sorted_wrt_append)
    show ?thesis
    proof (cases "length (sel @ [pos]) \<ge> maxSnippets")
      case full: True
      then show ?thesis using True sp by (simp add: Let_def)
    next
      case more: False
      have "sorted_wrt (\<lambda>a b. a + d \<le> b) (select_positions d maxSnippets ps (Some pos) (sel @ [pos]))"
        by (rule Cons.IH [OF sp]) simp
      then show ?thesis using True more by (simp add: Let_def)
    qed
  qed
qed

lemma select_positions_length:
  "length sel < maxSnippets \<Longrightarrow>
     length (select_positions d maxSnippets ps lastSelected sel) \<le> maxSnippets"
  by (induction ps arbitrary: lastSelected sel) (auto simp: Let_def)

lemma select_positions_subset:
  "set (select_positions d maxSnippets ps lastSelected sel) \<subseteq> set sel \<union> set ps"
proof (induction ps arbitrary: lastSelected sel)
  case Nil
  show ?case by simp
next
  case (Cons pos ps)
  have "set (select_positions d maxSnippets ps (Some pos) (sel @ [pos])) \<subseteq> set (sel @ [pos]) \<union> set ps"
    by (rule Cons.IH)
  moreover have "set (select_positions d maxSnippets ps lastSelected sel) \<subseteq> set sel \<union> set ps"
    by (rule Cons.IH)
  ultimately show ?case by (auto simp: Let_def)
qed

text \<open>
  C5, as amended. For every text, query and \<open>contextChars\<close>, and every \<open>maxSnippets\<close> of at
  least 1, the extractor returns at most \<open>maxSnippets\<close> snippets; when some position was
  found the snippets are built around the selected centres, which are match positions, and
  any two selected centres are at least \<open>2 * contextChars\<close> apart.
\<close>

theorem extractSnippets_separation:
  "(1 \<le> maxSnippets \<longrightarrow>
      length (fst (extractSnippets text query maxSnippets contextChars)) \<le> maxSnippets)
   \<and> (text \<noteq> [] \<and> mp_positions (findAllMatchPositions (toLowerCase text) (tokenize query)) \<noteq> [] \<longrightarrow>
        fst (extractSnippets text query maxSnippets contextChars) =
          map (build_snippet text (tokenize query) contextChars
                 (mp_positionTerms (findAllMatchPositions (toLowerCase text) (tokenize query))))
            (selectedPositions text query maxSnippets contextChars))
   \<and> set (selectedPositions text query maxSnippets contextChars)
        \<subseteq> set (mp_positions (findAllMatchPositions (toLowerCase text) (tokenize query)))
   \<and> (\<forall>i j. i < j \<and> j < length (selectedPositions text query maxSnippets contextChars) \<longrightarrow>
        selectedPositions text query maxSnippets contextChars ! i + 2 * contextChars
          \<le> selectedPositions text query maxSnippets contextChars ! j)"
proof (intro conjI impI allI)
  assume m: "1 \<le> maxSnippets"
  then have "length (select_positions d maxSnippets ps None []) \<le> maxSnippets" for d ps
    by (intro select_positions_length) simp
  with m show "length (fst (extractSnippets text query maxSnippets contextChars)) \<le> maxSnippets"
    by (simp add: extractSnippets_def Let_def)
next
  assume "text \<noteq> [] \<and> mp_positions (findAllMatchPositions (toLowerCase text) (tokenize query)) \<noteq> []"
  then show "fst (extractSnippets text query maxSnippets contextChars) =
          map (build_snippet text (tokenize query) contextChars
                 (mp_positionTerms (findAllMatchPositions (toLowerCase text) (tokenize query))))
            (selectedPositions text query maxSnippets contextChars)"
    by (simp add: extractSnippets_def selectedPositions_def tokenize_def Let_def)
next
  show "set (selectedPositions text query maxSnippets contextChars)
        \<subseteq> set (mp_positions (findAllMatchPositions (toLowerCase text) (tokenize query)))"
    using select_positions_subset [of "contextChars * 2" maxSnippets _ None "[]"]
    by (simp add: selectedPositions_def tokenize_def Let_def)
next
  fix i j
  assume ij: "i < j \<and> j < length (selectedPositions text query maxSnippets contextChars)"
  have "sorted_wrt (\<lambda>a b. a + contextChars * 2 \<le> b) (selectedPositions text query maxSnippets contextChars)"
    unfolding selectedPositions_def Let_def by (rule select_positions_spaced) simp_all
  from sorted_wrt_nth_less [OF this, of i j] ij
  show "selectedPositions text query maxSnippets contextChars ! i + 2 * contextChars
          \<le> selectedPositions text query maxSnippets contextChars ! j"
    by (simp add: mult.commute)
qed

theorem extractSnippets_separation_witness:
  "selectedPositions ''auth xxxxxxxxxxxx auth more auth'' ''auth'' 2 5 = [0, 18]
   \<and> (0::nat) + 2 * 5 \<le> 18
   \<and> length (fst (extractSnippets ''auth xxxxxxxxxxxx auth more auth'' ''auth'' 2 5)) \<le> 2"
proof -
  have s: "selectedPositions ''auth xxxxxxxxxxxx auth more auth'' ''auth'' 2 5 = [0, 18]"
    by code_simp
  show ?thesis
    using extractSnippets_separation [of 2 "''auth xxxxxxxxxxxx auth more auth''" "''auth''" 5]
    unfolding s by simp
qed

text \<open>
  C5 as stated fails for \<open>maxSnippets = 0\<close>: the loop tests the count after it has pushed
  the first centre, so one snippet is returned.
\<close>

theorem extractSnippets_zero_max_counterexample:
  "\<not> length (fst (extractSnippets ''ab'' ''ab'' 0 150)) \<le> 0"
  by code_simp

section \<open>The two phases of match-position finding\<close>

lemma index_from_Some:
  "index_from w s k = Some p \<Longrightarrow> \<exists>d. p = k + d \<and> d \<le> length s \<and> prefix w (drop d s)"
proof (induction s arbitrary: k)
  case Nil
  then show ?case by (simp split: if_splits)
next
  case (Cons c cs)
  show ?case
  proof (cases "prefix w (c # cs)")
    case True
    with Cons.prems have "p = k + 0 \<and> 0 \<le> length (c # cs) \<and> prefix w (drop 0 (c # cs))" by simp
    then show ?thesis by blast
  next
    case False
    with Cons.prems have "index_from w cs (Suc k) = Some p" by simp
    from Cons.IH [OF this] obtain d where "p = Suc k + d" "d \<le> length cs" "prefix w (drop d cs)"
      by blast
    then have "p = k + Suc d \<and> Suc d \<le> length (c # cs) \<and> prefix w (drop (Suc d) (c # cs))"
      by simp
    then show ?thesis by blast
  qed
qed

lemma indexOf_Some:
  assumes "indexOf s w from = Some p"
  shows "prefix w (drop p s)" and "p \<le> length s" and "min from (length s) \<le> p"
proof -
  from assms have "index_from w (drop from s) (min from (length s)) = Some p"
    by (simp add: indexOf_def)
  from index_from_Some [OF this] obtain d where
    d: "p = min from (length s) + d" "d \<le> length s - from" "prefix w (drop d (drop from s))"
    by auto
  show "min from (length s) \<le> p" using d by simp
  show "p \<le> length s" using d by (simp add: min_def split: if_splits)
  show "prefix w (drop p s)"
  proof (cases "from \<le> length s")
    case True
    then show ?thesis using d by (simp add: min_def add.commute)
  next
    case False
    then show ?thesis using d by (simp add: min_def)
  qed
qed

lemma indexOf_0_None_iff: "indexOf s w 0 = None \<longleftrightarrow> \<not> sublist w s"
  by (simp add: indexOf_def index_from_None_iff)

lemma prefix_drop_sublist: "prefix w (drop p s) \<Longrightarrow> sublist w s"
  by (meson prefix_imp_sublist sublist_drop sublist_order.order_trans)

lemma fst_addPosition [simp]: "fst (addPosition pos term st) = fst st @ [pos]"
  by (simp add: addPosition_def)

lemma terms_within_addPosition:
  "terms_within Q st \<Longrightarrow> term \<in> Q \<Longrightarrow> terms_within Q (addPosition pos term st)"
  unfolding terms_within_def addPosition_def
  by (auto split: option.splits if_splits)

lemma exact_word_extends:
  "\<exists>new. fst (exact_word s w from st) = fst st @ new
     \<and> (\<forall>p \<in> set new. prefix w (drop p s))
     \<and> length (fst st @ new) \<le> max MAX_MATCH_POSITIONS (length (fst st))"
proof (induction s w "from" st rule: exact_word.induct)
  case (1 lowerText word searchFrom st)
  show ?case
  proof (cases "length (fst st) < MAX_MATCH_POSITIONS")
    case False
    then show ?thesis by (subst exact_word.simps) simp
  next
    case True
    show ?thesis
    proof (cases "indexOf lowerText word searchFrom")
      case None
      with True show ?thesis by (subst exact_word.simps) simp
    next
      case (Some pos)
      from "1.IH" [OF True Some] obtain new where
        n: "fst (exact_word lowerText word (pos + length word) (addPosition pos word st))
              = fst (addPosition pos word st) @ new"
          "\<forall>p \<in> set new. prefix word (drop p lowerText)"
          "length (fst (addPosition pos word st) @ new)
              \<le> max MAX_MATCH_POSITIONS (length (fst (addPosition pos word st)))"
        by blast
      have e: "exact_word lowerText word searchFrom st
          = exact_word lowerText word (pos + length word) (addPosition pos word st)"
        using True Some by (subst exact_word.simps) simp
      have "fst (exact_word lowerText word searchFrom st) = fst st @ (pos # new)"
        unfolding e n(1) by simp
      moreover have "\<forall>p \<in> set (pos # new). prefix word (drop p lowerText)"
        using n(2) indexOf_Some(1) [OF Some] by simp
      moreover have "length (fst st @ (pos # new)) \<le> max MAX_MATCH_POSITIONS (length (fst st))"
        using n(3) True by simp
      ultimately show ?thesis by blast
    qed
  qed
qed

lemma exact_word_terms:
  "terms_within Q st \<Longrightarrow> w \<in> Q \<Longrightarrow> terms_within Q (exact_word s w from st)"
proof (induction s w "from" st rule: exact_word.induct)
  case (1 lowerText word searchFrom st)
  show ?case
  proof (cases "length (fst st) < MAX_MATCH_POSITIONS")
    case False
    then show ?thesis using "1.prems" by (subst exact_word.simps) simp
  next
    case True
    show ?thesis
    proof (cases "indexOf lowerText word searchFrom")
      case None
      with True show ?thesis using "1.prems" by (subst exact_word.simps) simp
    next
      case (Some pos)
      have "terms_within Q (exact_word lowerText word (pos + length word) (addPosition pos word st))"
        using "1.IH" [OF True Some] "1.prems" by (simp add: terms_within_addPosition)
      then show ?thesis using True Some by (subst exact_word.simps) simp
    qed
  qed
qed

lemma exact_word_found:
  assumes "sublist w s"
  shows "fst (exact_word s w 0 st) \<noteq> []"
proof (cases "length (fst st) < MAX_MATCH_POSITIONS")
  case False
  then show ?thesis by (subst exact_word.simps) (auto simp: MAX_MATCH_POSITIONS_def)
next
  case True
  from assms obtain pos where p: "indexOf s w 0 = Some pos"
    using indexOf_0_None_iff [of s w] by auto
  obtain new where "fst (exact_word s w (pos + length w) (addPosition pos w st))
      = fst (addPosition pos w st) @ new"
    using exact_word_extends by blast
  then show ?thesis using True p by (subst exact_word.simps) simp
qed

lemma exact_word_unchanged:
  assumes "\<not> sublist w s" "fst st = []"
  shows "exact_word s w 0 st = st"
  using assms indexOf_0_None_iff [of s w]
  by (subst exact_word.simps) simp

lemma exact_scan_extends:
  "\<exists>new. fst (exact_scan s ws st) = fst st @ new
     \<and> (\<forall>p \<in> set new. \<exists>w \<in> set ws. prefix w (drop p s))
     \<and> length (fst st @ new) \<le> max MAX_MATCH_POSITIONS (length (fst st))"
proof (induction ws arbitrary: st)
  case Nil
  show ?case by simp
next
  case (Cons w ws)
  obtain n1 where n1: "fst (exact_word s w 0 st) = fst st @ n1"
      "\<forall>p \<in> set n1. prefix w (drop p s)"
      "length (fst st @ n1) \<le> max MAX_MATCH_POSITIONS (length (fst st))"
    using exact_word_extends by blast
  obtain n2 where n2: "fst (exact_scan s ws (exact_word s w 0 st)) = fst (exact_word s w 0 st) @ n2"
      "\<forall>p \<in> set n2. \<exists>w \<in> set ws. prefix w (drop p s)"
      "length (fst (exact_word s w 0 st) @ n2)
          \<le> max MAX_MATCH_POSITIONS (length (fst (exact_word s w 0 st)))"
    using Cons.IH by blast
  have "fst (exact_scan s (w # ws) st) = fst st @ (n1 @ n2)"
    using n1(1) n2(1) by simp
  moreover have "\<forall>p \<in> set (n1 @ n2). \<exists>w' \<in> set (w # ws). prefix w' (drop p s)"
    using n1(2) n2(2) by auto
  moreover have "length (fst st @ (n1 @ n2)) \<le> max MAX_MATCH_POSITIONS (length (fst st))"
    using n1(1,3) n2(3) by simp
  ultimately show ?case by blast
qed

lemma exact_scan_terms:
  "terms_within Q st \<Longrightarrow> set ws \<subseteq> Q \<Longrightarrow> terms_within Q (exact_scan s ws st)"
  by (induction ws arbitrary: st) (auto simp: exact_word_terms)

lemma exact_scan_found:
  assumes "\<exists>w \<in> set ws. sublist w s"
  shows "fst (exact_scan s ws st) \<noteq> []"
  using assms
proof (induction ws arbitrary: st)
  case Nil
  then show ?case by simp
next
  case (Cons w ws)
  show ?case
  proof (cases "sublist w s")
    case True
    obtain new where "fst (exact_scan s ws (exact_word s w 0 st)) = fst (exact_word s w 0 st) @ new"
      using exact_scan_extends by blast
    then show ?thesis using exact_word_found [OF True, of st] by simp
  next
    case False
    with Cons.prems have "\<exists>w \<in> set ws. sublist w s" by simp
    from Cons.IH [OF this] show ?thesis by simp
  qed
qed

lemma exact_scan_unchanged:
  assumes "\<not> (\<exists>w \<in> set ws. sublist w s)" "fst st = []"
  shows "exact_scan s ws st = st"
  using assms by (induction ws arbitrary: st) (simp_all add: exact_word_unchanged)

lemma exact_scan_empty_iff:
  "fst (exact_scan s ws ([], m)) = [] \<longleftrightarrow> \<not> (\<exists>w \<in> set ws. sublist w s)"
proof
  assume e: "fst (exact_scan s ws ([], m)) = []"
  show "\<not> (\<exists>w \<in> set ws. sublist w s)"
    using exact_scan_found [of ws s "([], m)"] e by blast
next
  assume "\<not> (\<exists>w \<in> set ws. sublist w s)"
  then show "fst (exact_scan s ws ([], m)) = []"
    by (simp add: exact_scan_unchanged)
qed

lemma fuzzy_word_terms:
  "terms_within Q st \<Longrightarrow> set qws \<subseteq> Q \<Longrightarrow> terms_within Q (fuzzy_word k tw qws st)"
  by (induction qws arbitrary: st) (auto simp: terms_within_addPosition)

lemma fuzzy_scan_terms:
  "terms_within Q st \<Longrightarrow> set qws \<subseteq> Q \<Longrightarrow> terms_within Q (fuzzy_scan s qws tws cursor st)"
  by (induction tws arbitrary: cursor st) (auto simp: fuzzy_word_terms split: option.splits)

lemma findAllMatchPositions_terms:
  "mp_positionTerms (findAllMatchPositions s qws) pos = Some ts \<Longrightarrow> set ts \<subseteq> set qws"
proof -
  have e: "terms_within (set qws) ([], Map.empty)" by (simp add: terms_within_def)
  have 1: "terms_within (set qws) (exact_scan s qws ([], Map.empty))"
    by (rule exact_scan_terms [OF e]) simp
  have 2: "terms_within (set qws) (fuzzy_scan s qws (split_re s) 0 (exact_scan s qws ([], Map.empty)))"
    by (rule fuzzy_scan_terms [OF 1]) simp
  assume "mp_positionTerms (findAllMatchPositions s qws) pos = Some ts"
  then show ?thesis using 1 2
    by (auto simp: findAllMatchPositions_def Let_def terms_within_def split: if_splits)
qed

lemma set_add_terms: "set (add_terms ts matchTerms) = set ts \<union> set matchTerms"
  by (induction ts arbitrary: matchTerms) auto

lemma build_snippet_terms:
  assumes "\<And>ts. positionTerms pos = Some ts \<Longrightarrow> set ts \<subseteq> set queryWords"
  shows "set (snip_matchTerms (build_snippet text queryWords contextChars positionTerms pos))
     \<subseteq> set queryWords"
  using assms by (auto simp: build_snippet_def Let_def set_add_terms split: option.splits)

lemma split_re_sublist: "w \<in> set (split_re s) \<Longrightarrow> sublist w s"
proof (induction s rule: split_re.induct)
  case (1 s)
  define r where "r = dropWhile (\<lambda>c. \<not> is_sep c) s"
  show ?case
  proof (cases "r = []")
    case True
    with "1.prems" have "w = takeWhile (\<lambda>c. \<not> is_sep c) s"
      unfolding split_re_unfold [of s] r_def by (simp only: if_True set_simps empty_iff insert_iff) simp
    then show ?thesis by simp
  next
    case False
    with "1.prems" have "w = takeWhile (\<lambda>c. \<not> is_sep c) s \<or> w \<in> set (split_re (dropWhile is_sep r))"
      unfolding split_re_unfold [of s] r_def by (simp only: if_False set_simps insert_iff)
    then show ?thesis
    proof
      assume "w = takeWhile (\<lambda>c. \<not> is_sep c) s"
      then show ?thesis by simp
    next
      assume "w \<in> set (split_re (dropWhile is_sep r))"
      then have "sublist w (dropWhile is_sep r)"
        using "1.IH" [OF refl r_def False] by simp
      moreover have "sublist (dropWhile is_sep r) r" by simp
      moreover have "sublist r s" unfolding r_def by simp
      ultimately show ?thesis by (meson sublist_order.order_trans)
    qed
  qed
qed

lemma fuzzy_word_positions:
  "fst (fuzzy_word k tw qws st) = fst st @ map (\<lambda>qw. k) (filter (\<lambda>qw. close_to qw tw) qws)"
  by (induction qws arbitrary: st) (auto simp: close_to_def)

lemma index_from_empty [simp]: "index_from [] s k = Some k"
  by (cases s) auto

lemma indexOf_empty: "c \<le> length s \<Longrightarrow> indexOf s [] c = Some c"
  by (simp add: indexOf_def min_def)

lemma index_from_skip_seps:
  assumes "\<forall>x \<in> set seps. is_sep x" "w \<noteq> []" "\<not> is_sep (hd w)"
  shows "index_from w (seps @ w @ post) c = Some (c + length seps)"
  using assms(1)
proof (induction seps arbitrary: c)
  case Nil
  obtain h t where "w = h # t" using assms(2) by (cases w) auto
  then show ?case by simp
next
  case (Cons x seps)
  obtain h t where w: "w = h # t" using assms(2) by (cases w) auto
  have "h \<noteq> x" using Cons.prems assms(3) w by auto
  then have "\<not> prefix w (x # seps @ w @ post)" by (simp add: w)
  then show ?case using Cons by simp
qed

lemma takeWhile_hd:
  "takeWhile P xs \<noteq> [] \<Longrightarrow> P (hd (takeWhile P xs))"
  by (cases xs) (auto split: if_splits)

lemma indexOf_piece:
  assumes s: "s = pre @ seps @ rest"
    and seps: "\<forall>x \<in> set seps. is_sep x"
    and start: "seps = [] \<or> (rest \<noteq> [] \<and> \<not> is_sep (hd rest))"
  shows "indexOf s (takeWhile (\<lambda>c. \<not> is_sep c) rest) (length pre) = Some (length pre + length seps)"
proof -
  define w where "w = takeWhile (\<lambda>c. \<not> is_sep c) rest"
  define r where "r = dropWhile (\<lambda>c. \<not> is_sep c) rest"
  have rest: "rest = w @ r" by (simp add: w_def r_def)
  have i: "indexOf s w (length pre) = index_from w (seps @ w @ r) (length pre)"
    by (simp add: indexOf_def s rest)
  show ?thesis
  proof (cases "w = []")
    case True
    have "seps = []"
    proof (rule ccontr)
      assume "seps \<noteq> []"
      with start have "rest \<noteq> []" "\<not> is_sep (hd rest)" by auto
      then have "w \<noteq> []" unfolding w_def by (cases rest) auto
      with True show False by simp
    qed
    with True i show ?thesis unfolding w_def [symmetric] by simp
  next
    case False
    then have "\<not> is_sep (hd w)" unfolding w_def by (rule takeWhile_hd)
    from index_from_skip_seps [OF seps False this] i
    show ?thesis unfolding w_def [symmetric] by simp
  qed
qed

lemma split_re_Nil: "split_re [] = [[]]"
  by (subst split_re.simps) simp

lemma scan_offsets_from_unfold:
  "scan_offsets_from k s =
     (if dropWhile (\<lambda>c. \<not> is_sep c) s = [] then [(k, takeWhile (\<lambda>c. \<not> is_sep c) s)]
      else if dropWhile is_sep (dropWhile (\<lambda>c. \<not> is_sep c) s) = []
        then [(k, takeWhile (\<lambda>c. \<not> is_sep c) s), (k + length (takeWhile (\<lambda>c. \<not> is_sep c) s), [])]
      else (k, takeWhile (\<lambda>c. \<not> is_sep c) s) #
           scan_offsets_from
             (k + length (takeWhile (\<lambda>c. \<not> is_sep c) s)
                + length (takeWhile is_sep (dropWhile (\<lambda>c. \<not> is_sep c) s)))
             (dropWhile is_sep (dropWhile (\<lambda>c. \<not> is_sep c) s)))"
  by (subst scan_offsets_from.simps) (simp only: Let_def)

lemma split_re_last:
  "dropWhile (\<lambda>c. \<not> is_sep c) s = [] \<Longrightarrow> split_re s = [takeWhile (\<lambda>c. \<not> is_sep c) s]"
  by (subst split_re_unfold) (simp only: if_True simp_thms)

lemma split_re_more:
  "dropWhile (\<lambda>c. \<not> is_sep c) s \<noteq> [] \<Longrightarrow>
     split_re s = takeWhile (\<lambda>c. \<not> is_sep c) s #
                  split_re (dropWhile is_sep (dropWhile (\<lambda>c. \<not> is_sep c) s))"
  by (subst split_re_unfold) (simp only: if_False)

lemma scan_offsets_from_last:
  "dropWhile (\<lambda>c. \<not> is_sep c) s = [] \<Longrightarrow>
     scan_offsets_from k s = [(k, takeWhile (\<lambda>c. \<not> is_sep c) s)]"
  by (subst scan_offsets_from_unfold) (simp only: if_True simp_thms)

lemma scan_offsets_from_trailing:
  "dropWhile (\<lambda>c. \<not> is_sep c) s \<noteq> [] \<Longrightarrow>
   dropWhile is_sep (dropWhile (\<lambda>c. \<not> is_sep c) s) = [] \<Longrightarrow>
     scan_offsets_from k s =
       [(k, takeWhile (\<lambda>c. \<not> is_sep c) s), (k + length (takeWhile (\<lambda>c. \<not> is_sep c) s), [])]"
  by (subst scan_offsets_from_unfold) (simp only: if_True if_False simp_thms)

lemma scan_offsets_from_more:
  "dropWhile (\<lambda>c. \<not> is_sep c) s \<noteq> [] \<Longrightarrow>
   dropWhile is_sep (dropWhile (\<lambda>c. \<not> is_sep c) s) \<noteq> [] \<Longrightarrow>
     scan_offsets_from k s =
       (k, takeWhile (\<lambda>c. \<not> is_sep c) s) #
       scan_offsets_from
         (k + length (takeWhile (\<lambda>c. \<not> is_sep c) s)
            + length (takeWhile is_sep (dropWhile (\<lambda>c. \<not> is_sep c) s)))
         (dropWhile is_sep (dropWhile (\<lambda>c. \<not> is_sep c) s))"
  by (subst scan_offsets_from_unfold) (simp only: if_False)

lemma fuzzy_scan_capped:
  "length (fst st) \<ge> MAX_MATCH_POSITIONS \<Longrightarrow> fuzzy_scan s qws tws cursor st = st"
  by (cases tws) simp_all

lemma fuzzy_positions_capped:
  "length positions \<ge> MAX_MATCH_POSITIONS \<Longrightarrow> fuzzy_positions qws ws positions = positions"
  by (cases ws) auto

lemma fuzzy_scan_offsets:
  assumes "s = pre @ seps @ rest"
    and "\<forall>x \<in> set seps. is_sep x"
    and "seps = [] \<or> (rest \<noteq> [] \<and> \<not> is_sep (hd rest))"
  shows "fst (fuzzy_scan s qws (split_re rest) (length pre) st)
    = fuzzy_positions qws (scan_offsets_from (length pre + length seps) rest) (fst st)"
  using assms
proof (induction rest arbitrary: pre seps st rule: split_re.induct)
  case (1 rest)
  define w where "w = takeWhile (\<lambda>c. \<not> is_sep c) rest"
  define r where "r = dropWhile (\<lambda>c. \<not> is_sep c) rest"
  define k where "k = length pre + length seps"
  define st' where "st' = fuzzy_word k w qws st"
  have rest: "rest = w @ r" by (simp add: w_def r_def)
  have idx: "indexOf s w (length pre) = Some k"
    unfolding w_def k_def by (rule indexOf_piece [OF "1.prems"])
  have st': "fst st' = fst st @ map (\<lambda>qw. k) (filter (\<lambda>qw. close_to qw w) qws)"
    unfolding st'_def by (rule fuzzy_word_positions)
  show ?case
  proof (cases "length (fst st) \<ge> MAX_MATCH_POSITIONS")
    case True
    then show ?thesis by (simp only: fuzzy_scan_capped fuzzy_positions_capped)
  next
    case False
    show ?thesis
    proof (cases "r = []")
      case True
      have "split_re rest = [w]"
        using True unfolding r_def w_def by (rule split_re_last)
      then have a: "fst (fuzzy_scan s qws (split_re rest) (length pre) st) = fst st'"
        using False idx by (simp add: st'_def)
      have "scan_offsets_from k rest = [(k, w)]"
        using True unfolding r_def w_def by (rule scan_offsets_from_last)
      then have "fuzzy_positions qws (scan_offsets_from k rest) (fst st) = fst st'"
        using False st' by simp
      with a show ?thesis unfolding k_def by simp
    next
      case rne: False
      define rest' where "rest' = dropWhile is_sep r"
      define seps' where "seps' = takeWhile is_sep r"
      have r: "r = seps' @ rest'" by (simp add: seps'_def rest'_def)
      have sp: "split_re rest = w # split_re rest'"
        using rne unfolding r_def w_def rest'_def by (rule split_re_more)
      have step: "fst (fuzzy_scan s qws (split_re rest) (length pre) st)
          = fst (fuzzy_scan s qws (split_re rest') (k + length w) st')"
        unfolding sp using False idx by (simp add: st'_def)
      show ?thesis
      proof (cases "rest' = []")
        case True
        have le: "k + length w \<le> length s"
          unfolding "1.prems"(1) rest k_def by simp
        have "fst (fuzzy_scan s qws (split_re rest') (k + length w) st')
            = (if length (fst st') \<ge> MAX_MATCH_POSITIONS then fst st'
               else fst st' @ map (\<lambda>qw. k + length w) (filter (\<lambda>qw. close_to qw []) qws))"
          unfolding True split_re_Nil using indexOf_empty [OF le]
          by (simp add: fuzzy_word_positions)
        moreover have "scan_offsets_from k rest = [(k, w), (k + length w, [])]"
          using rne True unfolding r_def w_def rest'_def
          by (rule scan_offsets_from_trailing)
        ultimately show ?thesis
          unfolding step using False st' by (simp add: k_def)
      next
        case ne': False
        have wo: "scan_offsets_from k rest
            = (k, w) # scan_offsets_from (k + length w + length seps') rest'"
          using rne ne' unfolding r_def w_def rest'_def seps'_def
          by (rule scan_offsets_from_more)
        have ih: "fst (fuzzy_scan s qws (split_re rest') (length (pre @ seps @ w)) st')
            = fuzzy_positions qws (scan_offsets_from (length (pre @ seps @ w) + length seps') rest')
                (fst st')"
        proof (rule "1.IH" [OF refl r_def rne, folded rest'_def])
          show "s = (pre @ seps @ w) @ seps' @ rest'"
            unfolding "1.prems"(1) rest r by simp
          show "\<forall>x \<in> set seps'. is_sep x"
            unfolding seps'_def by (meson set_takeWhileD)
          have "\<not> is_sep (hd rest')"
            using ne' unfolding rest'_def by (rule hd_dropWhile)
          with ne' show "seps' = [] \<or> (rest' \<noteq> [] \<and> \<not> is_sep (hd rest'))" by simp
        qed
        have len: "length (pre @ seps @ w) = k + length w" by (simp add: k_def)
        show ?thesis
          unfolding step wo k_def [symmetric] using ih False st' unfolding len
          by simp
      qed
    qed
  qed
qed

lemma fuzzy_scan_scan_offsets:
  "fst (fuzzy_scan s qws (split_re s) 0 st) = fuzzy_positions qws (scan_offsets s) (fst st)"
  using fuzzy_scan_offsets [of s "[]" "[]" s qws st] by (simp add: scan_offsets_def)

lemma scan_offsets_from_words: "map snd (scan_offsets_from k s) = split_re s"
proof (induction s arbitrary: k rule: split_re.induct)
  case (1 s)
  define t where "t = takeWhile (\<lambda>c. \<not> is_sep c) s"
  define r where "r = dropWhile (\<lambda>c. \<not> is_sep c) s"
  show ?case
  proof (cases "r = []")
    case True
    have "split_re s = [t]" using True unfolding r_def t_def by (rule split_re_last)
    moreover have "scan_offsets_from k s = [(k, t)]"
      using True unfolding r_def t_def by (rule scan_offsets_from_last)
    ultimately show ?thesis by simp
  next
    case False
    have sp: "split_re s = t # split_re (dropWhile is_sep r)"
      using False unfolding r_def t_def by (rule split_re_more)
    show ?thesis
    proof (cases "dropWhile is_sep r = []")
      case True
      have "scan_offsets_from k s = [(k, t), (k + length t, [])]"
        using False True unfolding r_def t_def by (rule scan_offsets_from_trailing)
      then show ?thesis unfolding sp True split_re_Nil by simp
    next
      case ne: False
      have "scan_offsets_from k s = (k, t) #
          scan_offsets_from (k + length t + length (takeWhile is_sep r)) (dropWhile is_sep r)"
        using False ne unfolding r_def t_def by (rule scan_offsets_from_more)
      moreover have "map snd (scan_offsets_from (k + length t + length (takeWhile is_sep r))
          (dropWhile is_sep r)) = split_re (dropWhile is_sep r)"
        by (rule "1.IH" [OF refl r_def False])
      ultimately show ?thesis unfolding sp by simp
    qed
  qed
qed

lemma scan_offsets_from_at:
  "(p, w) \<in> set (scan_offsets_from k s) \<Longrightarrow> k \<le> p \<and> prefix w (drop (p - k) s)"
proof (induction s arbitrary: k rule: split_re.induct)
  case (1 s)
  define t where "t = takeWhile (\<lambda>c. \<not> is_sep c) s"
  define r where "r = dropWhile (\<lambda>c. \<not> is_sep c) s"
  have s: "s = t @ r" by (simp add: t_def r_def)
  have first: "prefix t (drop (k - k) s)" by (simp add: t_def takeWhile_is_prefix)
  show ?case
  proof (cases "r = []")
    case True
    have "scan_offsets_from k s = [(k, t)]"
      using True unfolding r_def t_def by (rule scan_offsets_from_last)
    with "1.prems" have "(p, w) = (k, t)" by simp
    with first show ?thesis by simp
  next
    case False
    show ?thesis
    proof (cases "dropWhile is_sep r = []")
      case True
      have "scan_offsets_from k s = [(k, t), (k + length t, [])]"
        using False True unfolding r_def t_def by (rule scan_offsets_from_trailing)
      with "1.prems" have "(p, w) = (k, t) \<or> (p, w) = (k + length t, [])" by simp
      with first show ?thesis by auto
    next
      case ne: False
      define k' where "k' = k + length t + length (takeWhile is_sep r)"
      have "scan_offsets_from k s = (k, t) # scan_offsets_from k' (dropWhile is_sep r)"
        using False ne unfolding r_def t_def k'_def by (rule scan_offsets_from_more)
      with "1.prems" have "(p, w) = (k, t) \<or> (p, w) \<in> set (scan_offsets_from k' (dropWhile is_sep r))"
        by simp
      then show ?thesis
      proof
        assume "(p, w) = (k, t)"
        with first show ?thesis by simp
      next
        assume "(p, w) \<in> set (scan_offsets_from k' (dropWhile is_sep r))"
        from "1.IH" [OF refl r_def False this]
        have a: "k' \<le> p" "prefix w (drop (p - k') (dropWhile is_sep r))" by simp_all
        have "s = (t @ takeWhile is_sep r) @ dropWhile is_sep r" using s by simp
        then have "drop (length t + length (takeWhile is_sep r)) s = dropWhile is_sep r"
          by (metis append_eq_conv_conj length_append)
        moreover have "p - k = (p - k') + (length t + length (takeWhile is_sep r))"
          using a(1) unfolding k'_def by simp
        ultimately have "drop (p - k) s = drop (p - k') (dropWhile is_sep r)"
          by (simp only: drop_drop [symmetric])
        with a show ?thesis unfolding k'_def by simp
      qed
    qed
  qed
qed

lemma scan_offsets_at: "(p, w) \<in> set (scan_offsets s) \<Longrightarrow> prefix w (drop p s)"
  using scan_offsets_from_at [of p w 0 s] by (simp add: scan_offsets_def)

lemma scan_offsets_words: "map snd (scan_offsets s) = split_re s"
  by (simp add: scan_offsets_def scan_offsets_from_words)

lemma fuzzy_positions_extends: "\<exists>new. fuzzy_positions qws ws ps = ps @ new"
proof (induction ws arbitrary: ps)
  case Nil
  show ?case by simp
next
  case (Cons kw ws)
  obtain k tw where kw: "kw = (k, tw)" by (cases kw)
  show ?case
  proof (cases "length ps \<ge> MAX_MATCH_POSITIONS")
    case True
    then show ?thesis by (simp add: kw)
  next
    case False
    obtain new where "fuzzy_positions qws ws (ps @ map (\<lambda>qw. k) (filter (\<lambda>qw. close_to qw tw) qws))
        = (ps @ map (\<lambda>qw. k) (filter (\<lambda>qw. close_to qw tw) qws)) @ new"
      using Cons.IH by blast
    with False show ?thesis by (simp add: kw)
  qed
qed

lemma fuzzy_positions_uncapped:
  "length (fuzzy_positions qws ws ps) < MAX_MATCH_POSITIONS \<Longrightarrow>
     fuzzy_positions qws ws ps =
       ps @ concat (map (\<lambda>(k, tw). map (\<lambda>qw. k) (filter (\<lambda>qw. close_to qw tw) qws)) ws)"
proof (induction ws arbitrary: ps)
  case Nil
  show ?case by simp
next
  case (Cons kw ws)
  obtain k tw where kw: "kw = (k, tw)" by (cases kw)
  obtain new where new: "fuzzy_positions qws (kw # ws) ps = ps @ new"
    using fuzzy_positions_extends by blast
  with Cons.prems have small: "\<not> length ps \<ge> MAX_MATCH_POSITIONS" by simp
  then have e: "fuzzy_positions qws (kw # ws) ps
      = fuzzy_positions qws ws (ps @ map (\<lambda>qw. k) (filter (\<lambda>qw. close_to qw tw) qws))"
    by (simp add: kw)
  from Cons.IH [of "ps @ map (\<lambda>qw. k) (filter (\<lambda>qw. close_to qw tw) qws)"] Cons.prems
  show ?case unfolding e by (simp add: kw)
qed

lemma fuzzy_positions_found:
  assumes "(k, tw) \<in> set ws" "qw \<in> set qws" "close_to qw tw"
  shows "fuzzy_positions qws ws ps \<noteq> []"
  using assms(1)
proof (induction ws arbitrary: ps)
  case Nil
  then show ?case by simp
next
  case (Cons kw ws)
  obtain k' tw' where kw: "kw = (k', tw')" by (cases kw)
  show ?case
  proof (cases "length ps \<ge> MAX_MATCH_POSITIONS")
    case True
    then show ?thesis by (auto simp: kw MAX_MATCH_POSITIONS_def)
  next
    case False
    define ps' where "ps' = ps @ map (\<lambda>qw. k') (filter (\<lambda>qw. close_to qw tw') qws)"
    have e: "fuzzy_positions qws (kw # ws) ps = fuzzy_positions qws ws ps'"
      using False by (simp add: kw ps'_def)
    show ?thesis
    proof (cases "kw = (k, tw)")
      case True
      then have "ps' \<noteq> []"
        using assms(2,3) unfolding ps'_def kw by (auto simp: filter_empty_conv)
      moreover obtain new where "fuzzy_positions qws ws ps' = ps' @ new"
        using fuzzy_positions_extends by blast
      ultimately show ?thesis unfolding e by simp
    next
      case False
      with Cons.prems have "(k, tw) \<in> set ws" by simp
      from Cons.IH [OF this] show ?thesis unfolding e .
    qed
  qed
qed

lemma select_positions_extends: "\<exists>new. select_positions d m ps lastSelected sel = sel @ new"
proof (induction ps arbitrary: lastSelected sel)
  case Nil
  show ?case by simp
next
  case (Cons p ps)
  obtain n1 where "select_positions d m ps (Some p) (sel @ [p]) = (sel @ [p]) @ n1"
    using Cons.IH by blast
  moreover obtain n2 where "select_positions d m ps lastSelected sel = sel @ n2"
    using Cons.IH by blast
  ultimately show ?case by (auto simp: Let_def)
qed

lemma select_positions_first: "ps \<noteq> [] \<Longrightarrow> select_positions d m ps None [] \<noteq> []"
proof -
  assume "ps \<noteq> []"
  then obtain p ps' where ps: "ps = p # ps'" by (cases ps) auto
  obtain new where "select_positions d m ps' (Some p) [p] = [p] @ new"
    using select_positions_extends by blast
  then show ?thesis by (simp add: ps Let_def)
qed

lemma dropWhile_keeps:
  assumes "x \<in> set s" "\<not> P x"
  shows "\<exists>y \<in> set (dropWhile P s). \<not> P y"
proof -
  have ne: "dropWhile P s \<noteq> []" using assms by (auto simp: dropWhile_eq_Nil_conv)
  then have "\<not> P (hd (dropWhile P s))" by (rule hd_dropWhile)
  with ne show ?thesis using hd_in_set by blast
qed

lemma trim_nonempty:
  assumes "x \<in> set s" "\<not> is_space x"
  shows "trim s \<noteq> []"
proof -
  obtain y where y: "y \<in> set (dropWhile is_space s)" "\<not> is_space y"
    using dropWhile_keeps [of x s is_space] assms by blast
  then have "y \<in> set (rev (dropWhile is_space s))" by simp
  with y(2) have "\<exists>z \<in> set (dropWhile is_space (rev (dropWhile is_space s))). \<not> is_space z"
    using dropWhile_keeps [of y "rev (dropWhile is_space s)" is_space] by blast
  then have "dropWhile is_space (rev (dropWhile is_space s)) \<noteq> []"
    by (metis empty_iff empty_set)
  then show ?thesis by (simp add: trim_def)
qed

lemma build_snippet_nonempty:
  assumes "x \<in> set text" "\<not> is_space x"
  shows "snip_text (build_snippet text queryWords contextChars positionTerms pos) \<noteq> []"
proof (cases "nat (max 0 (int pos - int contextChars)) > 0
      \<or> min (length text) (pos + contextChars) < length text")
  case True
  then show ?thesis by (auto simp: build_snippet_def Let_def)
next
  case False
  then have a: "nat (max 0 (int pos - int contextChars)) = 0"
    and b: "min (length text) (pos + contextChars) = length text"
    by linarith+
  have "slice text 0 (length text) = text" by (simp add: slice_def)
  then show ?thesis using trim_nonempty [of x "text"] assms
    by (simp add: build_snippet_def Let_def a b)
qed

lemma lower_char_space: "is_space c \<Longrightarrow> lower_char c = c"
proof -
  assume "is_space c"
  then consider "c = CHR 0x09" | "c = CHR 0x0A" | "c = CHR 0x0B" | "c = CHR 0x0C"
    | "c = CHR 0x0D" | "c = CHR 0x20" | "c = CHR 0xA0"
    by (auto simp: is_space_def)
  then show ?thesis by cases (simp_all add: lower_char_def)
qed

lemma lowered_nonspace:
  assumes "y \<in> set (toLowerCase text)" "\<not> is_space y"
  shows "\<exists>x \<in> set text. \<not> is_space x"
proof -
  from assms(1) obtain x where x: "x \<in> set text" "y = lower_char x"
    by (auto simp: toLowerCase_def)
  have "\<not> is_space x"
  proof
    assume "is_space x"
    then have "lower_char x = x" by (rule lower_char_space)
    with x assms(2) \<open>is_space x\<close> show False by simp
  qed
  with x show ?thesis by blast
qed

lemma findAllMatchPositions_exact:
  assumes "\<exists>w \<in> set queryWords. sublist w lowerText"
  shows "fst (exact_scan lowerText queryWords ([], Map.empty)) \<noteq> []"
    and "length (fst (exact_scan lowerText queryWords ([], Map.empty))) \<le> MAX_MATCH_POSITIONS"
    and "\<forall>p \<in> set (fst (exact_scan lowerText queryWords ([], Map.empty))).
           \<exists>w \<in> set queryWords. prefix w (drop p lowerText)"
    and "findAllMatchPositions lowerText queryWords =
           \<lparr>mp_positions = sort (remdups (fst (exact_scan lowerText queryWords ([], Map.empty)))),
            mp_matchCount = length (fst (exact_scan lowerText queryWords ([], Map.empty))),
            mp_positionTerms = snd (exact_scan lowerText queryWords ([], Map.empty))\<rparr>"
proof -
  show ne: "fst (exact_scan lowerText queryWords ([], Map.empty)) \<noteq> []"
    by (rule exact_scan_found [OF assms])
  have ext: "(\<forall>p \<in> set (fst (exact_scan lowerText queryWords ([], Map.empty))).
           \<exists>w \<in> set queryWords. prefix w (drop p lowerText))
      \<and> length (fst (exact_scan lowerText queryWords ([], Map.empty))) \<le> MAX_MATCH_POSITIONS"
    using exact_scan_extends [of lowerText queryWords "([], Map.empty)"] by auto
  show "length (fst (exact_scan lowerText queryWords ([], Map.empty))) \<le> MAX_MATCH_POSITIONS"
    using ext by simp
  show "\<forall>p \<in> set (fst (exact_scan lowerText queryWords ([], Map.empty))).
           \<exists>w \<in> set queryWords. prefix w (drop p lowerText)"
    using ext by simp
  show "findAllMatchPositions lowerText queryWords =
           \<lparr>mp_positions = sort (remdups (fst (exact_scan lowerText queryWords ([], Map.empty)))),
            mp_matchCount = length (fst (exact_scan lowerText queryWords ([], Map.empty))),
            mp_positionTerms = snd (exact_scan lowerText queryWords ([], Map.empty))\<rparr>"
    using ne by (simp add: findAllMatchPositions_def Let_def)
qed

lemma findAllMatchPositions_fuzzy:
  assumes "\<not> (\<exists>w \<in> set queryWords. sublist w lowerText)"
  shows "exact_scan lowerText queryWords ([], Map.empty) = ([], Map.empty)"
    and "mp_positions (findAllMatchPositions lowerText queryWords) =
           sort (remdups (fuzzy_positions queryWords (scan_offsets lowerText) []))"
    and "mp_matchCount (findAllMatchPositions lowerText queryWords) =
           length (fuzzy_positions queryWords (scan_offsets lowerText) [])"
proof -
  show e: "exact_scan lowerText queryWords ([], Map.empty) = ([], Map.empty)"
    by (rule exact_scan_unchanged [OF assms]) simp
  have f: "fst (fuzzy_scan lowerText queryWords (split_re lowerText) 0 ([], Map.empty))
      = fuzzy_positions queryWords (scan_offsets lowerText) []"
    using fuzzy_scan_scan_offsets [of lowerText queryWords "([], Map.empty)"] by simp
  show "mp_positions (findAllMatchPositions lowerText queryWords) =
           sort (remdups (fuzzy_positions queryWords (scan_offsets lowerText) []))"
    by (simp add: findAllMatchPositions_def Let_def e f)
  show "mp_matchCount (findAllMatchPositions lowerText queryWords) =
           length (fuzzy_positions queryWords (scan_offsets lowerText) [])"
    by (simp add: findAllMatchPositions_def Let_def e f)
qed

lemma fuzzy_positions_exactly_when:
  assumes "length (fuzzy_positions queryWords ws []) < MAX_MATCH_POSITIONS"
  shows "k \<in> set (fuzzy_positions queryWords ws []) \<longleftrightarrow>
     (\<exists>tw. (k, tw) \<in> set ws \<and> (\<exists>qw \<in> set queryWords. close_to qw tw))"
  unfolding fuzzy_positions_uncapped [OF assms]
  by (auto simp: filter_empty_conv image_iff)

lemma tokenize_autentication: "tokenize ''autentication'' = [''autentication'']"
  by code_simp

lemma close_autentication: "close_to ''autentication'' ''authentication''"
  by code_simp

lemma fuzzy_fallback_authentication:
  assumes a: "''authentication'' \<in> set (split_re (toLowerCase text))"
    and b: "\<not> sublist ''autentication'' (toLowerCase text)"
  shows "fst (exact_scan (toLowerCase text) (tokenize ''autentication'') ([], Map.empty)) = []"
    and "fst (extractSnippets text ''autentication'' maxSnippets contextChars) \<noteq> []"
    and "\<forall>sn \<in> set (fst (extractSnippets text ''autentication'' maxSnippets contextChars)).
           snip_text sn \<noteq> []"
proof -
  let ?s = "toLowerCase text"
  let ?Q = "tokenize ''autentication''"
  have nx: "\<not> (\<exists>w \<in> set ?Q. sublist w ?s)"
    using b by (simp add: tokenize_autentication)
  show "fst (exact_scan ?s ?Q ([], Map.empty)) = []"
    using findAllMatchPositions_fuzzy(1) [OF nx] by simp
  from a obtain k where k: "(k, ''authentication'') \<in> set (scan_offsets ?s)"
    unfolding scan_offsets_words [symmetric] by auto
  have "fuzzy_positions ?Q (scan_offsets ?s) [] \<noteq> []"
    by (rule fuzzy_positions_found [OF k _ close_autentication])
      (simp add: tokenize_autentication)
  then have pos: "mp_positions (findAllMatchPositions ?s ?Q) \<noteq> []"
    unfolding findAllMatchPositions_fuzzy(2) [OF nx]
    by (metis set_empty set_remdups set_sort)
  have "sublist ''authentication'' ?s" using a by (rule split_re_sublist)
  then have "CHR ''a'' \<in> set ?s" using set_mono_sublist by fastforce
  moreover have "\<not> is_space CHR ''a''" by (simp add: is_space_def)
  ultimately obtain x where x: "x \<in> set text" "\<not> is_space x"
    using lowered_nonspace by blast
  then have ne: "text \<noteq> []" by auto
  have ex: "fst (extractSnippets text ''autentication'' maxSnippets contextChars) =
      map (build_snippet text ?Q contextChars (mp_positionTerms (findAllMatchPositions ?s ?Q)))
        (select_positions (contextChars * 2) maxSnippets (mp_positions (findAllMatchPositions ?s ?Q)) None [])"
    using ne pos by (simp add: extractSnippets_def Let_def tokenize_def)
  show "fst (extractSnippets text ''autentication'' maxSnippets contextChars) \<noteq> []"
    unfolding ex using select_positions_first [OF pos] by simp
  show "\<forall>sn \<in> set (fst (extractSnippets text ''autentication'' maxSnippets contextChars)).
           snip_text sn \<noteq> []"
    unfolding ex using build_snippet_nonempty [OF x] by auto
qed

lemma takeWhile_nonsep_Nil:
  "r \<noteq> [] \<Longrightarrow> is_sep (hd r) \<Longrightarrow> takeWhile (\<lambda>c. \<not> is_sep c) r = []"
  by (cases r) auto

lemma dropWhile_nonsep_hd:
  "dropWhile (\<lambda>c. \<not> is_sep c) s \<noteq> [] \<Longrightarrow> is_sep (hd (dropWhile (\<lambda>c. \<not> is_sep c) s))"
  using hd_dropWhile [of "\<lambda>c. \<not> is_sep c" s] by simp

lemma scan_offsets_from_hd:
  "(k, takeWhile (\<lambda>c. \<not> is_sep c) s) \<in> set (scan_offsets_from k s)"
proof (cases "dropWhile (\<lambda>c. \<not> is_sep c) s = []")
  case True
  show ?thesis by (subst scan_offsets_from_last [OF True]) simp
next
  case False
  show ?thesis
  proof (cases "dropWhile is_sep (dropWhile (\<lambda>c. \<not> is_sep c) s) = []")
    case True
    show ?thesis by (subst scan_offsets_from_trailing [OF False True]) simp
  next
    case ne: False
    show ?thesis by (subst scan_offsets_from_more [OF False ne]) simp
  qed
qed

lemma scan_offsets_from_run:
  "(p, w) \<in> set (scan_offsets_from k s) \<Longrightarrow>
     k \<le> p \<and> w = takeWhile (\<lambda>c. \<not> is_sep c) (drop (p - k) s)"
proof (induction s arbitrary: k rule: split_re.induct)
  case (1 s)
  define t where "t = takeWhile (\<lambda>c. \<not> is_sep c) s"
  define r where "r = dropWhile (\<lambda>c. \<not> is_sep c) s"
  have s: "s = t @ r" by (simp add: t_def r_def)
  have first: "t = takeWhile (\<lambda>c. \<not> is_sep c) (drop (k - k) s)" by (simp add: t_def)
  show ?case
  proof (cases "r = []")
    case True
    have "scan_offsets_from k s = [(k, t)]"
      using True unfolding r_def t_def by (rule scan_offsets_from_last)
    with "1.prems" have "(p, w) = (k, t)" by simp
    with first show ?thesis by simp
  next
    case False
    have sep: "is_sep (hd r)" using False unfolding r_def by (rule dropWhile_nonsep_hd)
    show ?thesis
    proof (cases "dropWhile is_sep r = []")
      case True
      have "scan_offsets_from k s = [(k, t), (k + length t, [])]"
        using False True unfolding r_def t_def by (rule scan_offsets_from_trailing)
      with "1.prems" have "(p, w) = (k, t) \<or> (p, w) = (k + length t, [])" by simp
      then show ?thesis
      proof
        assume "(p, w) = (k, t)"
        with first show ?thesis by simp
      next
        assume e: "(p, w) = (k + length t, [])"
        have "drop (length t) s = r" by (simp add: s)
        then have "takeWhile (\<lambda>c. \<not> is_sep c) (drop (length t) s) = []"
          using takeWhile_nonsep_Nil [OF False sep] by simp
        with e show ?thesis by simp
      qed
    next
      case ne: False
      define k' where "k' = k + length t + length (takeWhile is_sep r)"
      have "scan_offsets_from k s = (k, t) # scan_offsets_from k' (dropWhile is_sep r)"
        using False ne unfolding r_def t_def k'_def by (rule scan_offsets_from_more)
      with "1.prems" have "(p, w) = (k, t) \<or> (p, w) \<in> set (scan_offsets_from k' (dropWhile is_sep r))"
        by simp
      then show ?thesis
      proof
        assume "(p, w) = (k, t)"
        with first show ?thesis by simp
      next
        assume "(p, w) \<in> set (scan_offsets_from k' (dropWhile is_sep r))"
        from "1.IH" [OF refl r_def False this]
        have a: "k' \<le> p" "w = takeWhile (\<lambda>c. \<not> is_sep c) (drop (p - k') (dropWhile is_sep r))"
          by simp_all
        have "s = (t @ takeWhile is_sep r) @ dropWhile is_sep r" using s by simp
        then have "drop (length t + length (takeWhile is_sep r)) s = dropWhile is_sep r"
          by (metis append_eq_conv_conj length_append)
        moreover have "p - k = (p - k') + (length t + length (takeWhile is_sep r))"
          using a(1) unfolding k'_def by simp
        ultimately have "drop (p - k) s = drop (p - k') (dropWhile is_sep r)"
          by (simp only: drop_drop [symmetric])
        with a show ?thesis unfolding k'_def by simp
      qed
    qed
  qed
qed

lemma scan_offsets_from_start:
  "(p, w) \<in> set (scan_offsets_from k s) \<Longrightarrow> w \<noteq> [] \<Longrightarrow> p = k \<or> is_sep (s ! (p - k - 1))"
proof (induction s arbitrary: k rule: split_re.induct)
  case (1 s)
  define t where "t = takeWhile (\<lambda>c. \<not> is_sep c) s"
  define r where "r = dropWhile (\<lambda>c. \<not> is_sep c) s"
  have s: "s = t @ r" by (simp add: t_def r_def)
  show ?case
  proof (cases "r = []")
    case True
    have "scan_offsets_from k s = [(k, t)]"
      using True unfolding r_def t_def by (rule scan_offsets_from_last)
    with "1.prems" show ?thesis by simp
  next
    case False
    have sep: "is_sep (hd r)" using False unfolding r_def by (rule dropWhile_nonsep_hd)
    show ?thesis
    proof (cases "dropWhile is_sep r = []")
      case True
      have "scan_offsets_from k s = [(k, t), (k + length t, [])]"
        using False True unfolding r_def t_def by (rule scan_offsets_from_trailing)
      with "1.prems" show ?thesis by auto
    next
      case ne: False
      define seps where "seps = takeWhile is_sep r"
      define rest where "rest = dropWhile is_sep r"
      define k' where "k' = k + length t + length seps"
      have r: "r = seps @ rest" by (simp add: seps_def rest_def)
      have sne: "seps \<noteq> []" using False sep unfolding seps_def by (cases r) auto
      have lastsep: "is_sep (last seps)"
        using sne unfolding seps_def by (meson last_in_set set_takeWhileD)
      have "scan_offsets_from k s = (k, t) # scan_offsets_from k' rest"
        using False ne unfolding r_def t_def k'_def seps_def rest_def
        by (rule scan_offsets_from_more)
      with "1.prems" have "(p, w) = (k, t) \<or> (p, w) \<in> set (scan_offsets_from k' rest)"
        by simp
      then show ?thesis
      proof
        assume "(p, w) = (k, t)"
        then show ?thesis by simp
      next
        assume m: "(p, w) \<in> set (scan_offsets_from k' rest)"
        have ih: "p = k' \<or> is_sep (rest ! (p - k' - 1))"
          using "1.IH" [OF refl r_def False, folded rest_def, OF m "1.prems"(2)] .
        have ge: "k' \<le> p" using scan_offsets_from_run [OF m] by simp
        have s3: "s = (t @ seps) @ rest" using s r by simp
        from ih show ?thesis
        proof
          assume "p = k'"
          then have "p - k - 1 = length (t @ seps) - 1" by (simp add: k'_def)
          moreover have "s ! (length (t @ seps) - 1) = last (t @ seps)"
            unfolding s3 using sne by (simp add: nth_append last_conv_nth)
          ultimately show ?thesis using lastsep sne by simp
        next
          assume a: "is_sep (rest ! (p - k' - 1))" 
          show ?thesis
          proof (cases "p = k'")
            case True
            then have "p - k - 1 = length (t @ seps) - 1" by (simp add: k'_def)
            moreover have "s ! (length (t @ seps) - 1) = last (t @ seps)"
              unfolding s3 using sne by (simp add: nth_append last_conv_nth)
            ultimately show ?thesis using lastsep sne by simp
          next
            case False
            with ge have gt: "k' < p" by simp
            then have "p - k - 1 = length (t @ seps) + (p - k' - 1)" by (simp add: k'_def)
            then have "s ! (p - k - 1) = rest ! (p - k' - 1)"
              unfolding s3 by (simp only: nth_append_length_plus)
            with a show ?thesis by simp
          qed
        qed
      qed
    qed
  qed
qed

lemma word_at_scan_offsets_from:
  "word_at s q w \<Longrightarrow> (k + q, w) \<in> set (scan_offsets_from k s)"
proof (induction s arbitrary: k q rule: split_re.induct)
  case (1 s)
  define t where "t = takeWhile (\<lambda>c. \<not> is_sep c) s"
  define r where "r = dropWhile (\<lambda>c. \<not> is_sep c) s"
  have s: "s = t @ r" by (simp add: t_def r_def)
  from "1.prems" have q: "q < length s" and pre: "q = 0 \<or> is_sep (s ! (q - 1))"
    and w: "w = takeWhile (\<lambda>c. \<not> is_sep c) (drop q s)" and wne: "w \<noteq> []"
    unfolding word_at_def by blast+
  show ?case
  proof (cases "q = 0")
    case True
    then have "w = t" using w by (simp add: t_def)
    then show ?thesis using True scan_offsets_from_hd [of k s] by (simp add: t_def)
  next
    case False
    with pre have sepq: "is_sep (s ! (q - 1))" by simp
    have tq: "length t < q"
    proof (rule ccontr)
      assume "\<not> length t < q"
      with False have "q - 1 < length t" by simp
      then have "s ! (q - 1) \<in> set t" unfolding s by (simp add: nth_append)
      then have "\<not> is_sep (s ! (q - 1))" unfolding t_def by (auto dest: set_takeWhileD)
      with sepq show False by simp
    qed
    with q have rne: "r \<noteq> []" unfolding s by auto
    define seps where "seps = takeWhile is_sep r"
    define rest where "rest = dropWhile is_sep r"
    define m where "m = length t + length seps"
    have r: "r = seps @ rest" by (simp add: seps_def rest_def)
    have s3: "s = (t @ seps) @ rest" using s r by simp
    have "drop q s = s ! q # drop (Suc q) s" using q by (simp add: Cons_nth_drop_Suc)
    with w wne have nsq: "\<not> is_sep (s ! q)" by (auto split: if_splits)
    have mq: "m \<le> q"
    proof (rule ccontr)
      assume "\<not> m \<le> q"
      with tq have "q - length t < length seps" "length t \<le> q" by (simp_all add: m_def)
      then have "s ! q = seps ! (q - length t)" unfolding s r by (simp add: nth_append)
      moreover have "seps ! (q - length t) \<in> set seps"
        using \<open>q - length t < length seps\<close> by simp
      ultimately have "is_sep (s ! q)" unfolding seps_def by (metis set_takeWhileD)
      with nsq show False by simp
    qed
    with q have restne: "rest \<noteq> []" unfolding s3 m_def by auto
    have so: "scan_offsets_from k s = (k, t) # scan_offsets_from (k + length t + length seps) rest"
      using rne restne unfolding r_def t_def seps_def rest_def
      by (rule scan_offsets_from_more)
    have dr: "drop q s = drop (q - m) rest"
      unfolding s3 using mq by (simp add: m_def)
    have wa: "word_at rest (q - m) w"
      unfolding word_at_def
    proof (intro conjI)
      show "q - m < length rest" using q mq unfolding s3 m_def by simp
      show "w = takeWhile (\<lambda>c. \<not> is_sep c) (drop (q - m) rest)" using w dr by simp
      show "w \<noteq> []" by (rule wne)
      show "q - m = 0 \<or> is_sep (rest ! (q - m - 1))"
      proof (cases "q = m")
        case True
        then show ?thesis by simp
      next
        case False
        with mq have "q - 1 = length (t @ seps) + (q - m - 1)" by (simp add: m_def)
        then have "s ! (q - 1) = rest ! (q - m - 1)"
          unfolding s3 by (simp only: nth_append_length_plus)
        with sepq show ?thesis by simp
      qed
    qed
    have "(k + length t + length seps + (q - m), w)
        \<in> set (scan_offsets_from (k + length t + length seps) rest)"
      using "1.IH" [OF refl r_def rne, folded rest_def, OF wa] .
    moreover have "k + length t + length seps + (q - m) = k + q" using mq by (simp add: m_def)
    ultimately show ?thesis unfolding so by simp
  qed
qed

lemma word_at_iff_scanned:
  "w \<noteq> [] \<Longrightarrow> word_at s p w \<longleftrightarrow> (p, w) \<in> set (scan_offsets s)"
proof
  assume "word_at s p w"
  from word_at_scan_offsets_from [OF this, of 0] show "(p, w) \<in> set (scan_offsets s)"
    by (simp add: scan_offsets_def)
next
  assume ne: "w \<noteq> []" and m: "(p, w) \<in> set (scan_offsets s)"
  from m have m': "(p, w) \<in> set (scan_offsets_from 0 s)" by (simp add: scan_offsets_def)
  from scan_offsets_from_run [OF m'] have w: "w = takeWhile (\<lambda>c. \<not> is_sep c) (drop p s)" by simp
  with ne have "drop p s \<noteq> []" by auto
  then have "p < length s" by simp
  moreover from scan_offsets_from_start [OF m' ne] have "p = 0 \<or> is_sep (s ! (p - 1))" by simp
  ultimately show "word_at s p w" using w ne by (simp add: word_at_def)
qed

lemma word_at_nonempty: "word_at s p w \<Longrightarrow> w \<noteq> []"
  unfolding word_at_def by blast

lemma tokenize_words:
  "set (tokenize text) = {tw. 1 < length tw \<and> (\<exists>k. word_at (toLowerCase text) k tw)}"
proof -
  let ?s = "toLowerCase text"
  have sp: "set (split_re ?s) = snd ` set (scan_offsets ?s)"
    unfolding scan_offsets_words [symmetric] by simp
  have "tw \<in> set (tokenize text) \<longleftrightarrow> 1 < length tw \<and> (\<exists>k. word_at ?s k tw)" for tw
  proof (cases "1 < length tw")
    case False
    then show ?thesis by (simp add: tokenize_def)
  next
    case True
    then have ne: "tw \<noteq> []" by auto
    have "tw \<in> set (tokenize text) \<longleftrightarrow> tw \<in> set (split_re ?s)"
      using True by (simp add: tokenize_def)
    also have "\<dots> \<longleftrightarrow> (\<exists>k. (k, tw) \<in> set (scan_offsets ?s))"
      unfolding sp by force
    also have "\<dots> \<longleftrightarrow> (\<exists>k. word_at ?s k tw)"
      using word_at_iff_scanned [OF ne] by simp
    finally show ?thesis using True by simp
  qed
  then show ?thesis by blast
qed

lemma fuzzy_positions_subset:
  "k \<in> set (fuzzy_positions qws ws ps) \<Longrightarrow>
     k \<in> set ps \<or> (\<exists>tw. (k, tw) \<in> set ws \<and> (\<exists>qw \<in> set qws. close_to qw tw))"
proof (induction ws arbitrary: ps)
  case Nil
  then show ?case by simp
next
  case (Cons kw ws)
  obtain k' tw' where kw: "kw = (k', tw')" by (cases kw)
  show ?case
  proof (cases "length ps \<ge> MAX_MATCH_POSITIONS")
    case True
    with Cons.prems show ?thesis by (simp add: kw)
  next
    case False
    with Cons.prems have "k \<in> set (fuzzy_positions qws ws
        (ps @ map (\<lambda>qw. k') (filter (\<lambda>qw. close_to qw tw') qws)))"
      by (simp add: kw)
    from Cons.IH [OF this] show ?thesis by (auto simp: kw)
  qed
qed

lemma findAllMatchPositions_fuzzy_record:
  assumes "\<not> (\<exists>w \<in> set queryWords. sublist w lowerText)"
  shows "findAllMatchPositions lowerText queryWords =
     \<lparr>mp_positions = sort (remdups (fst (fuzzy_scan lowerText queryWords (split_re lowerText) 0
                                           ([], Map.empty)))),
      mp_matchCount = length (fst (fuzzy_scan lowerText queryWords (split_re lowerText) 0
                                     ([], Map.empty))),
      mp_positionTerms = snd (fuzzy_scan lowerText queryWords (split_re lowerText) 0
                                ([], Map.empty))\<rparr>"
  using findAllMatchPositions_fuzzy(1) [OF assms]
  by (simp add: findAllMatchPositions_def Let_def)

lemma fuzzy_phase_words:
  assumes n: "\<not> (\<exists>w \<in> set queryWords. sublist w lowerText)"
    and wa: "word_at lowerText k tw"
  shows "k \<in> set (mp_positions (findAllMatchPositions lowerText queryWords)) \<Longrightarrow>
           \<exists>qw \<in> set queryWords. close_to qw tw"
    and "mp_matchCount (findAllMatchPositions lowerText queryWords) < MAX_MATCH_POSITIONS \<Longrightarrow>
         \<exists>qw \<in> set queryWords. close_to qw tw \<Longrightarrow>
           k \<in> set (mp_positions (findAllMatchPositions lowerText queryWords))"
proof -
  have tw: "tw = takeWhile (\<lambda>c. \<not> is_sep c) (drop k lowerText)" and ne: "tw \<noteq> []"
    using wa unfolding word_at_def by blast+
  have m: "(k, tw) \<in> set (scan_offsets lowerText)"
    using word_at_iff_scanned [OF ne] wa by simp
  {
    assume "k \<in> set (mp_positions (findAllMatchPositions lowerText queryWords))"
    then have "k \<in> set (fuzzy_positions queryWords (scan_offsets lowerText) [])"
      unfolding findAllMatchPositions_fuzzy(2) [OF n] by simp
    from fuzzy_positions_subset [OF this]
    obtain tw' where a: "(k, tw') \<in> set (scan_offsets lowerText)"
      and b: "\<exists>qw \<in> set queryWords. close_to qw tw'" by auto
    from a have "(k, tw') \<in> set (scan_offsets_from 0 lowerText)" by (simp add: scan_offsets_def)
    from scan_offsets_from_run [OF this] have "tw' = tw" using tw by simp
    with b show "\<exists>qw \<in> set queryWords. close_to qw tw" by simp
  }
  {
    assume c: "mp_matchCount (findAllMatchPositions lowerText queryWords) < MAX_MATCH_POSITIONS"
      and d: "\<exists>qw \<in> set queryWords. close_to qw tw"
    from c have "length (fuzzy_positions queryWords (scan_offsets lowerText) []) < MAX_MATCH_POSITIONS"
      unfolding findAllMatchPositions_fuzzy(3) [OF n] .
    from fuzzy_positions_exactly_when [OF this, of k] m d
    have "k \<in> set (fuzzy_positions queryWords (scan_offsets lowerText) [])" by blast
    then show "k \<in> set (mp_positions (findAllMatchPositions lowerText queryWords))"
      unfolding findAllMatchPositions_fuzzy(2) [OF n] by simp
  }
qed

text \<open>
  C2, as amended. If some query word occurs in the lowercased text, the recorded positions are
  those of the exact scan: there is at least one, there are at most 100, each is an offset at
  which a query word occurs, and the fuzzy scan adds nothing. Otherwise the exact scan records
  nothing and the recorded positions are those of the fuzzy scan. The start offset of a
  document word, that is of a word of the lowercased text with more than one character, is
  recorded only if some query word differs from the word in length by at most 2 and is within
  edit distance 2 of it; and when fewer than 100 positions are recorded in all, it is
  recorded whenever there is such a query word. The document words of a text are its tokens.
  For a text with the word "authentication" that does not contain "autentication", the exact
  scan for "autentication" finds nothing and the extractor returns at least one snippet, each
  with a non-empty text.
\<close>

theorem findAllMatchPositions_two_phase:
  "((\<exists>w \<in> set queryWords. sublist w lowerText) \<longrightarrow>
       fst (exact_scan lowerText queryWords ([], Map.empty)) \<noteq> []
     \<and> length (fst (exact_scan lowerText queryWords ([], Map.empty))) \<le> MAX_MATCH_POSITIONS
     \<and> (\<forall>p \<in> set (fst (exact_scan lowerText queryWords ([], Map.empty))).
           \<exists>w \<in> set queryWords. prefix w (drop p lowerText))
     \<and> findAllMatchPositions lowerText queryWords =
           \<lparr>mp_positions = sort (remdups (fst (exact_scan lowerText queryWords ([], Map.empty)))),
            mp_matchCount = length (fst (exact_scan lowerText queryWords ([], Map.empty))),
            mp_positionTerms = snd (exact_scan lowerText queryWords ([], Map.empty))\<rparr>)
   \<and> (\<not> (\<exists>w \<in> set queryWords. sublist w lowerText) \<longrightarrow>
       exact_scan lowerText queryWords ([], Map.empty) = ([], Map.empty)
     \<and> findAllMatchPositions lowerText queryWords =
           \<lparr>mp_positions = sort (remdups (fst (fuzzy_scan lowerText queryWords
                                                 (split_re lowerText) 0 ([], Map.empty)))),
            mp_matchCount = length (fst (fuzzy_scan lowerText queryWords
                                           (split_re lowerText) 0 ([], Map.empty))),
            mp_positionTerms = snd (fuzzy_scan lowerText queryWords
                                      (split_re lowerText) 0 ([], Map.empty))\<rparr>
     \<and> (\<forall>k tw. word_at lowerText k tw \<and> 1 < length tw \<longrightarrow>
          (k \<in> set (mp_positions (findAllMatchPositions lowerText queryWords)) \<longrightarrow>
             (\<exists>qw \<in> set queryWords. close_to qw tw))
        \<and> (mp_matchCount (findAllMatchPositions lowerText queryWords) < MAX_MATCH_POSITIONS
             \<and> (\<exists>qw \<in> set queryWords. close_to qw tw) \<longrightarrow>
             k \<in> set (mp_positions (findAllMatchPositions lowerText queryWords)))))
   \<and> set (tokenize text) = {tw. 1 < length tw \<and> (\<exists>k. word_at (toLowerCase text) k tw)}
   \<and> (''authentication'' \<in> set (split_re (toLowerCase text))
        \<and> \<not> sublist ''autentication'' (toLowerCase text) \<longrightarrow>
       fst (exact_scan (toLowerCase text) (tokenize ''autentication'') ([], Map.empty)) = []
     \<and> fst (extractSnippets text ''autentication'' maxSnippets contextChars) \<noteq> []
     \<and> (\<forall>sn \<in> set (fst (extractSnippets text ''autentication'' maxSnippets contextChars)).
           snip_text sn \<noteq> []))"
proof (intro conjI impI allI)
  assume a: "\<exists>w \<in> set queryWords. sublist w lowerText"
  show "fst (exact_scan lowerText queryWords ([], Map.empty)) \<noteq> []"
    by (rule findAllMatchPositions_exact(1) [OF a])
  show "length (fst (exact_scan lowerText queryWords ([], Map.empty))) \<le> MAX_MATCH_POSITIONS"
    by (rule findAllMatchPositions_exact(2) [OF a])
  show "\<forall>p \<in> set (fst (exact_scan lowerText queryWords ([], Map.empty))).
           \<exists>w \<in> set queryWords. prefix w (drop p lowerText)"
    by (rule findAllMatchPositions_exact(3) [OF a])
  show "findAllMatchPositions lowerText queryWords =
           \<lparr>mp_positions = sort (remdups (fst (exact_scan lowerText queryWords ([], Map.empty)))),
            mp_matchCount = length (fst (exact_scan lowerText queryWords ([], Map.empty))),
            mp_positionTerms = snd (exact_scan lowerText queryWords ([], Map.empty))\<rparr>"
    by (rule findAllMatchPositions_exact(4) [OF a])
next
  assume n: "\<not> (\<exists>w \<in> set queryWords. sublist w lowerText)"
  show "exact_scan lowerText queryWords ([], Map.empty) = ([], Map.empty)"
    by (rule findAllMatchPositions_fuzzy(1) [OF n])
  show "findAllMatchPositions lowerText queryWords =
           \<lparr>mp_positions = sort (remdups (fst (fuzzy_scan lowerText queryWords
                                                 (split_re lowerText) 0 ([], Map.empty)))),
            mp_matchCount = length (fst (fuzzy_scan lowerText queryWords
                                           (split_re lowerText) 0 ([], Map.empty))),
            mp_positionTerms = snd (fuzzy_scan lowerText queryWords
                                      (split_re lowerText) 0 ([], Map.empty))\<rparr>"
    by (rule findAllMatchPositions_fuzzy_record [OF n])
next
  fix k tw
  assume n: "\<not> (\<exists>w \<in> set queryWords. sublist w lowerText)"
    and w: "word_at lowerText k tw \<and> 1 < length tw"
    and r: "k \<in> set (mp_positions (findAllMatchPositions lowerText queryWords))"
  from w have wa: "word_at lowerText k tw" by simp
  show "\<exists>qw \<in> set queryWords. close_to qw tw"
    by (rule fuzzy_phase_words(1) [OF n wa r])
next
  fix k tw
  assume n: "\<not> (\<exists>w \<in> set queryWords. sublist w lowerText)"
    and w: "word_at lowerText k tw \<and> 1 < length tw"
    and c: "mp_matchCount (findAllMatchPositions lowerText queryWords) < MAX_MATCH_POSITIONS
             \<and> (\<exists>qw \<in> set queryWords. close_to qw tw)"
  from w have wa: "word_at lowerText k tw" by simp
  from c have c1: "mp_matchCount (findAllMatchPositions lowerText queryWords) < MAX_MATCH_POSITIONS"
    and c2: "\<exists>qw \<in> set queryWords. close_to qw tw" by simp_all
  show "k \<in> set (mp_positions (findAllMatchPositions lowerText queryWords))"
    by (rule fuzzy_phase_words(2) [OF n wa c1 c2])
next
  show "set (tokenize text) = {tw. 1 < length tw \<and> (\<exists>k. word_at (toLowerCase text) k tw)}"
    by (rule tokenize_words)
next
  assume h: "''authentication'' \<in> set (split_re (toLowerCase text))
        \<and> \<not> sublist ''autentication'' (toLowerCase text)"
  show "fst (exact_scan (toLowerCase text) (tokenize ''autentication'') ([], Map.empty)) = []"
    using fuzzy_fallback_authentication(1) h by blast
  show "fst (extractSnippets text ''autentication'' maxSnippets contextChars) \<noteq> []"
    using fuzzy_fallback_authentication(2) h by blast
  show "\<forall>sn \<in> set (fst (extractSnippets text ''autentication'' maxSnippets contextChars)).
           snip_text sn \<noteq> []"
    using fuzzy_fallback_authentication(3) h by blast
qed

theorem findAllMatchPositions_two_phase_witness:
  "(\<exists>w \<in> set [''auth'']. sublist w ''auth here, auth there'')
   \<and> fst (exact_scan ''auth here, auth there'' [''auth''] ([], Map.empty)) = [0, 11]
   \<and> mp_positions (findAllMatchPositions ''auth here, auth there'' [''auth'']) = [0, 11]
   \<and> \<not> sublist ''wrld'' ''hello world.''
   \<and> word_at ''hello world.'' 6 ''world'' \<and> 1 < length ''world''
   \<and> close_to ''wrld'' ''world''
   \<and> mp_matchCount (findAllMatchPositions ''hello world.'' [''wrld'']) = 1
   \<and> 6 \<in> set (mp_positions (findAllMatchPositions ''hello world.'' [''wrld'']))
   \<and> word_at ''hello world.'' 0 ''hello'' \<and> 1 < length ''hello''
   \<and> \<not> close_to ''wrld'' ''hello''
   \<and> 0 \<notin> set (mp_positions (findAllMatchPositions ''hello world.'' [''wrld'']))
   \<and> ''authentication'' \<in> set (split_re (toLowerCase ''Help me implement authentication with JWT tokens''))
   \<and> \<not> sublist ''autentication'' (toLowerCase ''Help me implement authentication with JWT tokens'')
   \<and> fst (extractSnippets ''Help me implement authentication with JWT tokens'' ''autentication'' 3 150) \<noteq> []
   \<and> [] \<notin> set (map snip_text
        (fst (extractSnippets ''Help me implement authentication with JWT tokens'' ''autentication'' 3 150)))"
proof -
  have a: "\<exists>w \<in> set [''auth'']. sublist w ''auth here, auth there''" by code_simp
  have p: "fst (exact_scan ''auth here, auth there'' [''auth''] ([], Map.empty)) = [0, 11]"
    by code_simp
  have m: "mp_positions (findAllMatchPositions ''auth here, auth there'' [''auth'']) = [0, 11]"
    using findAllMatchPositions_two_phase [of "[''auth'']" "''auth here, auth there''" "[]" 3 150] a
    unfolding p by simp
  have ns: "\<not> sublist ''wrld'' ''hello world.''" by code_simp
  then have nx: "\<not> (\<exists>w \<in> set [''wrld'']. sublist w ''hello world.'')" by simp
  have w6: "word_at ''hello world.'' 6 ''world''" by code_simp
  have w0: "word_at ''hello world.'' 0 ''hello''" by code_simp
  have c6: "close_to ''wrld'' ''world''" by code_simp
  have c0: "\<not> close_to ''wrld'' ''hello''" by code_simp
  have mc: "mp_matchCount (findAllMatchPositions ''hello world.'' [''wrld'']) = 1" by code_simp
  note fz = findAllMatchPositions_two_phase [of "[''wrld'']" "''hello world.''" "[]" 3 150]
  have r6: "6 \<in> set (mp_positions (findAllMatchPositions ''hello world.'' [''wrld'']))"
  proof -
    from fz nx have "word_at ''hello world.'' 6 ''world'' \<and> 1 < length ''world'' \<longrightarrow>
        (mp_matchCount (findAllMatchPositions ''hello world.'' [''wrld'']) < MAX_MATCH_POSITIONS
          \<and> (\<exists>qw \<in> set [''wrld'']. close_to qw ''world'') \<longrightarrow>
         6 \<in> set (mp_positions (findAllMatchPositions ''hello world.'' [''wrld''])))"
      by blast
    with w6 c6 mc show ?thesis by (simp add: MAX_MATCH_POSITIONS_def)
  qed
  have r0: "0 \<notin> set (mp_positions (findAllMatchPositions ''hello world.'' [''wrld'']))"
  proof -
    from fz nx have "word_at ''hello world.'' 0 ''hello'' \<and> 1 < length ''hello'' \<longrightarrow>
        (0 \<in> set (mp_positions (findAllMatchPositions ''hello world.'' [''wrld''])) \<longrightarrow>
         (\<exists>qw \<in> set [''wrld'']. close_to qw ''hello''))"
      by blast
    with w0 c0 show ?thesis by auto
  qed
  have w: "''authentication'' \<in> set (split_re (toLowerCase ''Help me implement authentication with JWT tokens''))"
    by code_simp
  have n: "\<not> sublist ''autentication'' (toLowerCase ''Help me implement authentication with JWT tokens'')"
    by code_simp
  from w n findAllMatchPositions_two_phase
    [of "[]" "[]" "''Help me implement authentication with JWT tokens''" 3 150]
  have "fst (extractSnippets ''Help me implement authentication with JWT tokens'' ''autentication'' 3 150) \<noteq> []
     \<and> (\<forall>sn \<in> set (fst (extractSnippets ''Help me implement authentication with JWT tokens''
                         ''autentication'' 3 150)). snip_text sn \<noteq> [])"
    by blast
  then have e: "fst (extractSnippets ''Help me implement authentication with JWT tokens'' ''autentication'' 3 150) \<noteq> []
     \<and> [] \<notin> set (map snip_text
        (fst (extractSnippets ''Help me implement authentication with JWT tokens'' ''autentication'' 3 150)))"
    by auto
  have l6: "1 < length ''world''" and l0: "1 < length ''hello''" by simp_all
  from a p m ns w6 l6 c6 mc r6 w0 l0 c0 r0 w n e show ?thesis by blast
qed

text \<open>
  C2 as stated fails once 100 positions are recorded: with 50 query words "ab" and the text
  "zz zz zz", the first two words give 100 positions and the third word, which starts at
  offset 6 and is within edit distance 2 of "ab", is never reached.
\<close>

theorem fuzzy_scan_cap_counterexample:
  "tokenize (concat (replicate 50 ''ab '')) = replicate 50 ''ab''
   \<and> fst (exact_scan ''zz zz zz'' (replicate 50 ''ab'') ([], Map.empty)) = []
   \<and> word_at ''zz zz zz'' 6 ''zz''
   \<and> 1 < length ''zz''
   \<and> \<bar>int (length ''zz'') - int (length ''ab'')\<bar> \<le> 2
   \<and> levenshteinDistance ''zz'' ''ab'' \<le> 2
   \<and> 6 \<notin> set (mp_positions (findAllMatchPositions ''zz zz zz'' (replicate 50 ''ab'')))
   \<and> mp_matchCount (findAllMatchPositions ''zz zz zz'' (replicate 50 ''ab'')) = 100"
  by code_simp

text \<open>
  The fuzzy scan runs over all the pieces of \<open>split\<close>, also those of one or no character,
  which are no tokens; a query word of two characters is within edit distance 2 of the empty
  piece. For "hello world." and the query word "qz" the one position recorded is 11, where
  \<open>indexOf\<close> finds the empty piece that follows the full stop.
\<close>

lemma fuzzy_scan_short_piece:
  "mp_positions (findAllMatchPositions ''hello world.'' [''qz'']) = [11]
   \<and> split_re ''hello world.'' = [''hello'', ''world'', []]"
  by code_simp

section \<open>Match terms are query words\<close>

text \<open>
  C10. Every term in the \<open>matchTerms\<close> of a returned snippet is a token of the query; and
  when the exact scan found nothing, so that the positions come from the fuzzy scan, no word
  of the lowercased text appears in \<open>matchTerms\<close>.
\<close>

theorem matchTerms_are_query_words:
  "\<forall>sn \<in> set (fst (extractSnippets text query maxSnippets contextChars)).
     set (snip_matchTerms sn) \<subseteq> set (tokenize query)
     \<and> (fst (exact_scan (toLowerCase text) (tokenize query) ([], Map.empty)) = [] \<longrightarrow>
          (\<forall>tw \<in> set (split_re (toLowerCase text)). tw \<notin> set (snip_matchTerms sn)))"
proof
  fix sn assume sn: "sn \<in> set (fst (extractSnippets text query maxSnippets contextChars))"
  have sub: "set (snip_matchTerms sn) \<subseteq> set (tokenize query)"
  proof (cases "text = [] \<or> mp_positions (findAllMatchPositions (toLowerCase text) (tokenize query)) = []")
    case True
    with sn show ?thesis
      by (auto simp: extractSnippets_def Let_def tokenize_def split: if_splits)
  next
    case False
    with sn obtain pos where
      "sn = build_snippet text (tokenize query) contextChars
         (mp_positionTerms (findAllMatchPositions (toLowerCase text) (tokenize query))) pos"
      by (auto simp: extractSnippets_def Let_def tokenize_def)
    then show ?thesis
      using build_snippet_terms findAllMatchPositions_terms by blast
  qed
  have "\<forall>tw \<in> set (split_re (toLowerCase text)). tw \<notin> set (snip_matchTerms sn)"
    if "fst (exact_scan (toLowerCase text) (tokenize query) ([], Map.empty)) = []"
  proof
    fix tw assume "tw \<in> set (split_re (toLowerCase text))"
    then have "sublist tw (toLowerCase text)" by (rule split_re_sublist)
    with that have "tw \<notin> set (tokenize query)"
      unfolding exact_scan_empty_iff by blast
    with sub show "tw \<notin> set (snip_matchTerms sn)" by blast
  qed
  with sub show "set (snip_matchTerms sn) \<subseteq> set (tokenize query)
     \<and> (fst (exact_scan (toLowerCase text) (tokenize query) ([], Map.empty)) = [] \<longrightarrow>
          (\<forall>tw \<in> set (split_re (toLowerCase text)). tw \<notin> set (snip_matchTerms sn)))"
    by blast
qed

theorem matchTerms_are_query_words_witness:
  "fst (exact_scan (toLowerCase ''Help me implement authentication with JWT tokens'')
          (tokenize ''autentication'') ([], Map.empty)) = []
   \<and> ''authentication'' \<in> set (split_re (toLowerCase ''Help me implement authentication with JWT tokens''))
   \<and> fst (extractSnippets ''Help me implement authentication with JWT tokens'' ''autentication'' 3 150)
       = [\<lparr>snip_text = ''Help me implement authentication with JWT tokens'',
            snip_matchTerms = [''autentication'']\<rparr>]
   \<and> set (concat (map snip_matchTerms
          (fst (extractSnippets ''Help me implement authentication with JWT tokens'' ''autentication'' 3 150))))
       \<subseteq> set (tokenize ''autentication'')
   \<and> ''authentication'' \<notin> set (concat (map snip_matchTerms
          (fst (extractSnippets ''Help me implement authentication with JWT tokens'' ''autentication'' 3 150))))"
proof -
  have e: "fst (exact_scan (toLowerCase ''Help me implement authentication with JWT tokens'')
          (tokenize ''autentication'') ([], Map.empty)) = []"
    by code_simp
  have w: "''authentication'' \<in> set (split_re (toLowerCase ''Help me implement authentication with JWT tokens''))"
    by code_simp
  have x: "fst (extractSnippets ''Help me implement authentication with JWT tokens'' ''autentication'' 3 150)
       = [\<lparr>snip_text = ''Help me implement authentication with JWT tokens'',
            snip_matchTerms = [''autentication'']\<rparr>]"
    by code_simp
  from e w matchTerms_are_query_words
    [of "''Help me implement authentication with JWT tokens''" "''autentication''" 3 150]
  have "\<forall>sn \<in> set (fst (extractSnippets ''Help me implement authentication with JWT tokens''
                         ''autentication'' 3 150)).
         set (snip_matchTerms sn) \<subseteq> set (tokenize ''autentication'')
         \<and> ''authentication'' \<notin> set (snip_matchTerms sn)"
    by blast
  then have "set (concat (map snip_matchTerms
          (fst (extractSnippets ''Help me implement authentication with JWT tokens'' ''autentication'' 3 150))))
       \<subseteq> set (tokenize ''autentication'')
     \<and> ''authentication'' \<notin> set (concat (map snip_matchTerms
          (fst (extractSnippets ''Help me implement authentication with JWT tokens'' ''autentication'' 3 150))))"
    by auto
  with e w x show ?thesis by blast
qed

end
